theory Spec2Isabelle
  imports Main "HOL-Library.Sublist"
begin

section \<open>Shared utilities: finish-reason mapping\<close>

text \<open>
  A TypeScript value of type \<open>T | null | undefined\<close>. The three cases are kept apart
  where the source hands such a value on; \<open>x != null\<close> holds for \<open>Val\<close> only.
\<close>

datatype 'a nullish = Undefined | Null | Val 'a

text \<open>\<open>x ?? undefined\<close> and the test \<open>x != null\<close>.\<close>

fun orUndefined :: "'a nullish \<Rightarrow> 'a option" where
  "orUndefined (Val x) = Some x"
| "orUndefined Null = None"
| "orUndefined Undefined = None"

datatype unified_reason = Stop | Length | ContentFilter | ToolCalls | Error | Other

record finish_reason =
  unified :: unified_reason
  raw :: "string option"

text \<open>
  \<open>mapSarvamFinishReason\<close> (shared/map-finish-reason): a \<open>switch\<close> on the vendor string;
  \<open>null\<close> and \<open>undefined\<close> match no \<open>case\<close> and fall to \<open>default\<close>.
\<close>

fun mapSarvamFinishReason :: "string nullish \<Rightarrow> finish_reason" where
  "mapSarvamFinishReason (Val s) =
     (if s = ''stop'' then \<lparr>unified = Stop, raw = Some s\<rparr>
      else if s = ''length'' then \<lparr>unified = Length, raw = Some s\<rparr>
      else if s = ''content_filter'' then \<lparr>unified = ContentFilter, raw = Some s\<rparr>
      else if s = ''function_call'' \<or> s = ''tool_calls'' then \<lparr>unified = ToolCalls, raw = Some s\<rparr>
      else \<lparr>unified = Other, raw = orUndefined (Val s)\<rparr>)"
| "mapSarvamFinishReason Null = \<lparr>unified = Other, raw = orUndefined Null\<rparr>"
| "mapSarvamFinishReason Undefined = \<lparr>unified = Other, raw = orUndefined Undefined\<rparr>"

section \<open>Chat model adapter: the stream-chunk accumulator of \<open>doStream\<close>\<close>

subsection \<open>Fragments as validated by \<open>sarvamChatChunkSchema\<close>\<close>

text \<open>
  Fields declared \<open>.nullish()\<close> that the translator only tests with \<open>!= null\<close> or
  \<open>??\<close> are options: \<open>None\<close> stands for both null and undefined. Numbers are only
  copied, never computed on.
\<close>

record usage_data =
  prompt_tokens :: "int option"
  completion_tokens :: "int option"

record x_sarvam_data =
  xs_usage :: "usage_data option"

text \<open>
  One element of \<open>delta.tool_calls\<close>. The object \<open>function\<close> is required by the schema, so
  its two fields are read directly.
\<close>

record tool_call_delta =
  tcd_index :: int
  tcd_id :: "string option"
  tcd_type :: "string option"
  tcd_name :: "string option"
  tcd_arguments :: "string option"

record delta_data =
  content :: "string option"
  reasoning :: "string option"
  tool_calls :: "tool_call_delta list option"

record choice_data =
  delta :: "delta_data option"
  finish_reason :: "string nullish"

record chunk_value =
  cv_id :: "string option"
  cv_created :: "int option"
  cv_model :: "string option"
  choices :: "choice_data list"
  x_sarvam :: "x_sarvam_data option"

text \<open>
  What \<open>transform\<close> receives: a parse result that failed (\<open>!chunk.success\<close>, with the parse
  error), a value of the error branch of the schema (\<open>"error" in value\<close>), or a chunk value.
\<close>

datatype chunk = ParseFailure string | ErrorData string | Value chunk_value

subsection \<open>Stream parts\<close>

record input_tokens =
  inputTotal :: "int option"
  noCache :: "int option"
  cacheRead :: "int option"
  cacheWrite :: "int option"

record output_tokens =
  outputTotal :: "int option"
  outputText :: "int option"
  outputReasoning :: "int option"

record usage =
  inputTokens :: input_tokens
  outputTokens :: output_tokens

datatype warning = WarnOther string | WarnUnsupported string "string option"

record response_metadata =
  md_id :: "string option"
  md_modelId :: "string option"
  md_timestamp :: "int option"

datatype event =
    StreamStart "warning list"
  | ResponseMetadata response_metadata
  | ReasoningStart string
  | ReasoningDelta string string
  | ReasoningEnd string
  | TextStart string
  | TextDelta string string
  | TextEnd string
  | ToolInputStart string string
  | ToolInputDelta string string
  | ToolInputEnd string
  | ToolCall string string string
  | ErrorEvent string
  | Finish finish_reason usage

datatype error =
    InvalidResponseDataError tool_call_delta string
  | UnsupportedFunctionalityError string
  | JsError string

subsection \<open>The closure state of \<open>doStream\<close>\<close>

text \<open>
  An entry of the array \<open>toolCalls\<close>; its field \<open>type\<close> is the constant \<open>"function"\<close>.
  The array is read and written at \<open>toolCalls[index]\<close> only, so it is a map from the index.
\<close>

record tool_call_state =
  tc_id :: string
  tc_name :: string
  tc_arguments :: string
  hasFinished :: bool

record stream_state =
  toolCalls :: "int \<rightharpoonup> tool_call_state"
  finishReason :: finish_reason
  usageTotals :: usage
  isFirstChunk :: bool
  textStarted :: bool
  reasoningStarted :: bool

text \<open>
  What the translator takes from outside the repository's sources: \<open>isParsableJson\<close> of the
  provider utilities, \<open>getResponseMetadata\<close>, the two generated ids and the warnings of
  \<open>getArgs\<close>.
\<close>

record env =
  isParsableJson :: "string \<Rightarrow> bool"
  getResponseMetadata :: "chunk_value \<Rightarrow> response_metadata"
  textId :: string
  reasoningId :: string
  warnings :: "warning list"

definition initial :: stream_state where
  "initial =
     \<lparr>toolCalls = Map.empty,
      finishReason = \<lparr>unified = Other, raw = None\<rparr>,
      usageTotals =
        \<lparr>inputTokens = \<lparr>inputTotal = None, noCache = None, cacheRead = None, cacheWrite = None\<rparr>,
         outputTokens = \<lparr>outputTotal = None, outputText = None, outputReasoning = None\<rparr>\<rparr>,
      isFirstChunk = True,
      textStarted = False,
      reasoningStarted = False\<rparr>"

subsection \<open>\<open>transform\<close>\<close>

text \<open>
  The body of \<open>for (const toolCallDelta of delta.tool_calls)\<close>: the events it enqueues, and
  the error it throws or the array afterwards.
\<close>

definition toolCallStep ::
  "env \<Rightarrow> (int \<rightharpoonup> tool_call_state) \<Rightarrow> tool_call_delta \<Rightarrow>
     event list \<times> (error + (int \<rightharpoonup> tool_call_state))" where
  "toolCallStep E tcs d =
     (case tcs (tcd_index d) of
        None \<Rightarrow>
          if tcd_type d \<noteq> Some ''function''
          then ([], Inl (InvalidResponseDataError d ''Expected 'function' type.''))
          else (case tcd_id d of
            None \<Rightarrow> ([], Inl (InvalidResponseDataError d ''Expected 'id' to be a string.''))
          | Some i \<Rightarrow> (case tcd_name d of
              None \<Rightarrow> ([], Inl (InvalidResponseDataError d ''Expected 'function.name' to be a string.''))
            | Some n \<Rightarrow>
                let args = (case tcd_arguments d of None \<Rightarrow> [] | Some a \<Rightarrow> a);
                    toolCall = \<lparr>tc_id = i, tc_name = n, tc_arguments = args, hasFinished = False\<rparr>
                in if isParsableJson E (tc_arguments toolCall)
                   then ([ToolInputStart (tc_id toolCall) (tc_name toolCall)]
                         @ (if length (tc_arguments toolCall) > 0
                            then [ToolInputDelta (tc_id toolCall) (tc_arguments toolCall)] else [])
                         @ [ToolInputEnd (tc_id toolCall),
                            ToolCall (tc_id toolCall) (tc_name toolCall) (tc_arguments toolCall)],
                         Inr (tcs(tcd_index d \<mapsto> toolCall\<lparr>hasFinished := True\<rparr>)))
                   else ([ToolInputStart (tc_id toolCall) (tc_name toolCall)]
                         @ (if length (tc_arguments toolCall) > 0
                            then [ToolInputDelta (tc_id toolCall) (tc_arguments toolCall)] else []),
                         Inr (tcs(tcd_index d \<mapsto> toolCall)))))
      | Some toolCall \<Rightarrow>
          if hasFinished toolCall then ([], Inr tcs)
          else
            let toolCall' = (case tcd_arguments d of
                               Some a \<Rightarrow> toolCall\<lparr>tc_arguments := tc_arguments toolCall @ a\<rparr>
                             | None \<Rightarrow> toolCall);
                fragment = (case tcd_arguments d of None \<Rightarrow> [] | Some a \<Rightarrow> a)
            in if isParsableJson E (tc_arguments toolCall')
               then ([ToolInputDelta (tc_id toolCall') fragment,
                      ToolInputEnd (tc_id toolCall'),
                      ToolCall (tc_id toolCall') (tc_name toolCall') (tc_arguments toolCall')],
                     Inr (tcs(tcd_index d \<mapsto> toolCall'\<lparr>hasFinished := True\<rparr>)))
               else ([ToolInputDelta (tc_id toolCall') fragment],
                     Inr (tcs(tcd_index d \<mapsto> toolCall'))))"

text \<open>
  The loop itself. Each event is paired with the index of the loop iteration that enqueued
  it (the events of the stream carry the call id, not the index); events enqueued outside
  the loop are paired with \<open>None\<close>. The stream parts proper are the second components.
\<close>

type_synonym tagged = "int option \<times> event"

fun toolCallsLoop ::
  "env \<Rightarrow> (int \<rightharpoonup> tool_call_state) \<Rightarrow> tool_call_delta list \<Rightarrow>
     tagged list \<times> (error + (int \<rightharpoonup> tool_call_state))" where
  "toolCallsLoop E tcs [] = ([], Inr tcs)"
| "toolCallsLoop E tcs (d # ds) =
     (case toolCallStep E tcs d of
        (evs, Inl e) \<Rightarrow> (map (Pair (Some (tcd_index d))) evs, Inl e)
      | (evs, Inr tcs') \<Rightarrow>
          (case toolCallsLoop E tcs' ds of
             (evs', r) \<Rightarrow> (map (Pair (Some (tcd_index d))) evs @ evs', r)))"

text \<open>The blocks of \<open>transform\<close> for a chunk value, in the order of the source.\<close>

definition firstChunkEvents :: "env \<Rightarrow> stream_state \<Rightarrow> chunk_value \<Rightarrow> event list" where
  "firstChunkEvents E s v =
     (if isFirstChunk s
      then [StreamStart (warnings E), ResponseMetadata (getResponseMetadata E v)]
      else [])"

definition usageStep :: "stream_state \<Rightarrow> chunk_value \<Rightarrow> stream_state" where
  "usageStep s v =
     (case x_sarvam v of
        None \<Rightarrow> s
      | Some x \<Rightarrow> (case xs_usage x of
          None \<Rightarrow> s
        | Some u \<Rightarrow>
            s\<lparr>usageTotals :=
                \<lparr>inputTokens = \<lparr>inputTotal = prompt_tokens u, noCache = None,
                                 cacheRead = None, cacheWrite = None\<rparr>,
                 outputTokens = \<lparr>outputTotal = completion_tokens u, outputText = None,
                                  outputReasoning = None\<rparr>\<rparr>\<rparr>))"

text \<open>\<open>value.choices[0]\<close>: undefined when the array is empty.\<close>

definition firstChoice :: "chunk_value \<Rightarrow> choice_data option" where
  "firstChoice v = (case choices v of [] \<Rightarrow> None | c # _ \<Rightarrow> Some c)"

definition finishReasonStep :: "stream_state \<Rightarrow> choice_data option \<Rightarrow> stream_state" where
  "finishReasonStep s choice =
     (case choice of
        None \<Rightarrow> s
      | Some c \<Rightarrow> (case finish_reason c of
          Val r \<Rightarrow> s\<lparr>finishReason := mapSarvamFinishReason (Val r)\<rparr>
        | Null \<Rightarrow> s
        | Undefined \<Rightarrow> s))"

definition reasoningStep :: "env \<Rightarrow> stream_state \<Rightarrow> delta_data \<Rightarrow> event list \<times> stream_state" where
  "reasoningStep E s d =
     (case reasoning d of
        None \<Rightarrow> ([], s)
      | Some r \<Rightarrow>
          if length r > 0
          then ((if \<not> reasoningStarted s then [ReasoningStart (reasoningId E)] else [])
                @ [ReasoningDelta (reasoningId E) r],
                s\<lparr>reasoningStarted := True\<rparr>)
          else ([], s))"

definition textStep :: "env \<Rightarrow> stream_state \<Rightarrow> delta_data \<Rightarrow> event list \<times> stream_state" where
  "textStep E s d =
     (case content d of
        None \<Rightarrow> ([], s)
      | Some t \<Rightarrow>
          if length t > 0
          then ((if \<not> textStarted s then [TextStart (textId E)] else [])
                @ [TextDelta (textId E) t],
                s\<lparr>textStarted := True\<rparr>)
          else ([], s))"

definition untagged :: "event list \<Rightarrow> tagged list" where
  "untagged evs = map (Pair None) evs"

definition transform :: "env \<Rightarrow> stream_state \<Rightarrow> chunk \<Rightarrow> tagged list \<times> (error + stream_state)" where
  "transform E s c =
     (case c of
        ParseFailure e \<Rightarrow>
          (untagged [ErrorEvent e], Inr (s\<lparr>finishReason := \<lparr>unified = Error, raw = None\<rparr>\<rparr>))
      | ErrorData e \<Rightarrow>
          (untagged [ErrorEvent e], Inr (s\<lparr>finishReason := \<lparr>unified = Error, raw = None\<rparr>\<rparr>))
      | Value v \<Rightarrow>
          let ev1 = firstChunkEvents E s v;
              s1 = s\<lparr>isFirstChunk := False\<rparr>;
              s2 = usageStep s1 v;
              choice = firstChoice v;
              s3 = finishReasonStep s2 choice
          in (case (case choice of None \<Rightarrow> None | Some c \<Rightarrow> delta c) of
                None \<Rightarrow> (untagged ev1, Inr s3)
              | Some d \<Rightarrow>
                  (case reasoningStep E s3 d of (ev2, s4) \<Rightarrow>
                   (case textStep E s4 d of (ev3, s5) \<Rightarrow>
                   (case tool_calls d of
                      None \<Rightarrow> (untagged (ev1 @ ev2 @ ev3), Inr s5)
                    | Some tds \<Rightarrow>
                        (case toolCallsLoop E (toolCalls s5) tds of
                           (ev4, Inl e) \<Rightarrow> (untagged (ev1 @ ev2 @ ev3) @ ev4, Inl e)
                         | (ev4, Inr tcs) \<Rightarrow>
                             (untagged (ev1 @ ev2 @ ev3) @ ev4, Inr (s5\<lparr>toolCalls := tcs\<rparr>))))))))"

subsection \<open>\<open>flush\<close> and the piped stream\<close>

definition flush :: "env \<Rightarrow> stream_state \<Rightarrow> tagged list" where
  "flush E s =
     untagged ((if reasoningStarted s then [ReasoningEnd (reasoningId E)] else [])
               @ (if textStarted s then [TextEnd (textId E)] else [])
               @ [Finish (finishReason s) (usageTotals s)])"

text \<open>
  \<open>transform\<close> is called on the fragments in turn; when it throws, the stream is
  errored and neither \<open>transform\<close> nor \<open>flush\<close> runs again.
\<close>

fun transformAll ::
  "env \<Rightarrow> stream_state \<Rightarrow> chunk list \<Rightarrow> tagged list \<times> (error + stream_state)" where
  "transformAll E s [] = ([], Inr s)"
| "transformAll E s (c # cs) =
     (case transform E s c of
        (evs, Inl e) \<Rightarrow> (evs, Inl e)
      | (evs, Inr s') \<Rightarrow> (case transformAll E s' cs of (evs', r) \<Rightarrow> (evs @ evs', r)))"

text \<open>
  \<open>response.pipeThrough(new TransformStream({transform, flush}))\<close>: everything enqueued,
  and the error when \<open>transform\<close> threw.
\<close>

definition pipeThrough :: "env \<Rightarrow> chunk list \<Rightarrow> tagged list \<times> error option" where
  "pipeThrough E cs =
     (case transformAll E initial cs of
        (evs, Inl e) \<Rightarrow> (evs, Some e)
      | (evs, Inr s) \<Rightarrow> (evs @ flush E s, None))"

section \<open>Message converter\<close>

subsection \<open>The generic prompt\<close>

text \<open>
  The parts of \<open>LanguageModelV3Prompt\<close> that \<open>convertToSarvamChatMessages\<close> reads. The data
  of a file part is a URL (kept as its \<open>toString()\<close>), a string, or bytes. JSON values are
  of a type \<open>'j\<close> left open; \<open>JSON.stringify\<close> and the base64 encoding of \<open>Buffer\<close> are
  taken from outside.
\<close>

datatype file_data = DataURL string | DataString string | DataBytes "nat list"

datatype user_part = UserText string | UserFile string file_data

text \<open>
  An assistant part is a text, a tool call (id, name, input) or one of the kinds the
  \<open>switch\<close> has no case for (file, reasoning, tool result).
\<close>

datatype 'j assistant_part =
    AssistantText string
  | AssistantToolCall string string 'j
  | AssistantOther

datatype 'j tool_output =
    OutText string
  | OutErrorText string
  | OutJson 'j
  | OutErrorJson 'j
  | OutExecutionDenied "string option"
  | OutContent 'j

datatype 'j tool_part = ToolResult string "'j tool_output" | ToolApprovalResponse

datatype 'j message =
    SystemMessage string
  | UserMessage "user_part list"
  | AssistantMessage "'j assistant_part list"
  | ToolMessage "'j tool_part list"

record 'j js =
  stringify :: "'j \<Rightarrow> string"
  stringifyOutput :: "'j tool_output \<Rightarrow> string"
  base64 :: "nat list \<Rightarrow> string"

subsection \<open>The vendor messages (\<open>SarvamChatPrompt\<close>)\<close>

datatype content_part = PartText string | PartImage string

datatype user_content = ContentString string | ContentParts "content_part list"

record message_tool_call =
  mtc_id :: string
  mtc_name :: string
  mtc_arguments :: string

datatype sarvam_message =
    SarvamSystem string
  | SarvamUser user_content
  | SarvamAssistant string "message_tool_call list option"
  | SarvamTool string string

subsection \<open>\<open>convertToSarvamChatMessages\<close>\<close>

text \<open>The callback of \<open>content.map\<close> in the user case.\<close>

fun userPart :: "'j js \<Rightarrow> user_part \<Rightarrow> error + content_part" where
  "userPart J (UserText t) = Inr (PartText t)"
| "userPart J (UserFile mediaType d) =
     (if \<not> prefix ''image/'' mediaType
      then Inl (UnsupportedFunctionalityError ''Non-image file content parts in user messages'')
      else (case d of
              DataURL u \<Rightarrow> Inr (PartImage u)
            | DataString b \<Rightarrow> Inr (PartImage (''data:'' @ mediaType @ '';base64,'' @ b))
            | DataBytes bs \<Rightarrow>
                Inr (PartImage (''data:'' @ mediaType @ '';base64,'' @ base64 J bs))))"

text \<open>\<open>content.map\<close> calls the callback from left to right; the first throw ends it.\<close>

fun userParts :: "'j js \<Rightarrow> user_part list \<Rightarrow> error + content_part list" where
  "userParts J [] = Inr []"
| "userParts J (p # ps) =
     (case userPart J p of
        Inl e \<Rightarrow> Inl e
      | Inr q \<Rightarrow> (case userParts J ps of Inl e \<Rightarrow> Inl e | Inr qs \<Rightarrow> Inr (q # qs)))"

text \<open>The loop of the assistant case over \<open>text\<close> and \<open>toolCalls\<close> (here \<open>calls\<close>).\<close>

fun assistantLoop ::
  "'j js \<Rightarrow> string \<Rightarrow> message_tool_call list \<Rightarrow> 'j assistant_part list \<Rightarrow>
     string \<times> message_tool_call list" where
  "assistantLoop J text calls [] = (text, calls)"
| "assistantLoop J text calls (AssistantText t # ps) = assistantLoop J (text @ t) calls ps"
| "assistantLoop J text calls (AssistantToolCall i n inp # ps) =
     assistantLoop J text
       (calls @ [\<lparr>mtc_id = i, mtc_name = n, mtc_arguments = stringify J inp\<rparr>]) ps"
| "assistantLoop J text calls (AssistantOther # ps) = assistantLoop J text calls ps"

fun toolContent :: "'j js \<Rightarrow> 'j tool_output \<Rightarrow> string" where
  "toolContent J (OutText v) = v"
| "toolContent J (OutErrorText v) = v"
| "toolContent J (OutJson v) = stringify J v"
| "toolContent J (OutErrorJson v) = stringify J v"
| "toolContent J (OutExecutionDenied r) =
     (case r of None \<Rightarrow> ''Tool execution denied'' | Some x \<Rightarrow> x)"
| "toolContent J (OutContent v) = stringifyOutput J (OutContent v)"

text \<open>The loop of the tool case, pushing onto \<open>messages\<close>.\<close>

fun toolLoop :: "'j js \<Rightarrow> sarvam_message list \<Rightarrow> 'j tool_part list \<Rightarrow> sarvam_message list" where
  "toolLoop J messages [] = messages"
| "toolLoop J messages (ToolApprovalResponse # ps) = toolLoop J messages ps"
| "toolLoop J messages (ToolResult i out # ps) =
     toolLoop J (messages @ [SarvamTool i (toolContent J out)]) ps"

text \<open>
  The loop over the prompt. \<open>fakeToolSystemPrompt\<close> is optional and tested for truthiness:
  undefined and the empty string leave the system content as it is. The \<open>default\<close> case of
  the \<open>switch\<close> on the role is excluded by the type of the prompt.
\<close>

fun convertLoop ::
  "'j js \<Rightarrow> string option \<Rightarrow> sarvam_message list \<Rightarrow> 'j message list \<Rightarrow>
     error + sarvam_message list" where
  "convertLoop J fake messages [] = Inr messages"
| "convertLoop J fake messages (SystemMessage c # ms) =
     convertLoop J fake
       (messages @ [SarvamSystem (case fake of
                                    None \<Rightarrow> c
                                  | Some f \<Rightarrow> if f = [] then c else c @ [CHR 0x0A, CHR 0x0A] @ f)]) ms"
| "convertLoop J fake messages (UserMessage ps # ms) =
     (case ps of
        [UserText t] \<Rightarrow> convertLoop J fake (messages @ [SarvamUser (ContentString t)]) ms
      | _ \<Rightarrow> (case userParts J ps of
                Inl e \<Rightarrow> Inl e
              | Inr qs \<Rightarrow> convertLoop J fake (messages @ [SarvamUser (ContentParts qs)]) ms))"
| "convertLoop J fake messages (AssistantMessage ps # ms) =
     (case assistantLoop J [] [] ps of
        (text, calls) \<Rightarrow>
          convertLoop J fake
            (messages @ [SarvamAssistant text (if length calls > 0 then Some calls else None)])
            ms)"
| "convertLoop J fake messages (ToolMessage ps # ms) =
     convertLoop J fake (toolLoop J messages ps) ms"

definition convertToSarvamChatMessages ::
  "'j js \<Rightarrow> 'j message list \<Rightarrow> string option \<Rightarrow> error + sarvam_message list" where
  "convertToSarvamChatMessages J prompt fakeToolSystemPrompt =
     convertLoop J fakeToolSystemPrompt [] prompt"

subsection \<open>The converter as the specification words it\<close>

text \<open>
  One turn at a time, with no accumulator and no exception: the messages a turn becomes.
\<close>

fun imagePart :: "'j js \<Rightarrow> user_part \<Rightarrow> content_part" where
  "imagePart J (UserText t) = PartText t"
| "imagePart J (UserFile mediaType (DataURL u)) = PartImage u"
| "imagePart J (UserFile mediaType (DataString b)) =
     PartImage (''data:'' @ mediaType @ '';base64,'' @ b)"
| "imagePart J (UserFile mediaType (DataBytes bs)) =
     PartImage (''data:'' @ mediaType @ '';base64,'' @ base64 J bs)"

fun assistantText :: "'j assistant_part \<Rightarrow> string" where
  "assistantText (AssistantText t) = t"
| "assistantText _ = []"

fun assistantCalls :: "'j js \<Rightarrow> 'j assistant_part \<Rightarrow> message_tool_call list" where
  "assistantCalls J (AssistantToolCall i n inp) =
     [\<lparr>mtc_id = i, mtc_name = n, mtc_arguments = stringify J inp\<rparr>]"
| "assistantCalls J _ = []"

fun toolResultMessage :: "'j js \<Rightarrow> 'j tool_part \<Rightarrow> sarvam_message list" where
  "toolResultMessage J (ToolResult i out) = [SarvamTool i (toolContent J out)]"
| "toolResultMessage J ToolApprovalResponse = []"

fun turnMessages :: "'j js \<Rightarrow> string option \<Rightarrow> 'j message \<Rightarrow> sarvam_message list" where
  "turnMessages J fake (SystemMessage c) =
     [SarvamSystem (case fake of
                      None \<Rightarrow> c
                    | Some f \<Rightarrow> if f = [] then c else c @ [CHR 0x0A, CHR 0x0A] @ f)]"
| "turnMessages J fake (UserMessage ps) =
     [SarvamUser (case ps of
                    [UserText t] \<Rightarrow> ContentString t
                  | _ \<Rightarrow> ContentParts (map (imagePart J) ps))]"
| "turnMessages J fake (AssistantMessage ps) =
     [SarvamAssistant (concat (map assistantText ps))
        (case concat (map (assistantCalls J) ps) of [] \<Rightarrow> None | c # cs \<Rightarrow> Some (c # cs))]"
| "turnMessages J fake (ToolMessage ps) = concat (map (toolResultMessage J) ps)"

text \<open>Every file part of every user turn has a media type that starts with \<open>image/\<close>.\<close>

fun imageOrText :: "user_part \<Rightarrow> bool" where
  "imageOrText (UserText t) = True"
| "imageOrText (UserFile mediaType d) = prefix ''image/'' mediaType"

fun imagesOnly :: "'j message \<Rightarrow> bool" where
  "imagesOnly (UserMessage ps) = list_all imageOrText ps"
| "imagesOnly _ = True"

section \<open>Translation adapter\<close>

text \<open>
  \<open>SarvamTranslationSettings\<close> is declared outside the sources at hand; the fields are the
  ones \<open>getArgs\<close> reads, each optional.
\<close>

record translation_settings =
  ts_model :: "string option"
  ts_from :: "string option"
  ts_to :: "string option"
  ts_mode :: "string option"
  ts_numerals_format :: "string option"
  ts_enable_preprocessing :: "bool option"
  ts_output_script :: "string option"
  ts_speaker_gender :: "string option"

text \<open>The constructor: \<open>this.modelId = settings.model ?? "mayura:v1"\<close>.\<close>

definition modelId :: "translation_settings \<Rightarrow> string" where
  "modelId S = (case ts_model S of None \<Rightarrow> ''mayura:v1'' | Some m \<Rightarrow> m)"

record translation_args =
  ta_input :: string
  ta_source_language_code :: string
  ta_target_language_code :: "string option"
  ta_numerals_format :: string
  ta_enable_preprocessing :: bool
  ta_output_script :: "string option"
  ta_speaker_gender :: string
  ta_mode :: string
  ta_model :: string

text \<open>
  \<open>Array.prototype.join\<close> on the contents of the user messages: a string as it is, an
  array of parts through \<open>toString\<close>, each part an object.
\<close>

fun joinWith :: "string \<Rightarrow> string list \<Rightarrow> string" where
  "joinWith sep [] = []"
| "joinWith sep [x] = x"
| "joinWith sep (x # y # ys) = x @ sep @ joinWith sep (y # ys)"

fun contentToString :: "user_content \<Rightarrow> string" where
  "contentToString (ContentString t) = t"
| "contentToString (ContentParts ps) = joinWith '','' (map (\<lambda>_. ''[object Object]'') ps)"

fun userContents :: "sarvam_message list \<Rightarrow> string list" where
  "userContents [] = []"
| "userContents (SarvamUser c # ms) = contentToString c # userContents ms"
| "userContents (_ # ms) = userContents ms"

definition getArgs ::
  "translation_settings \<Rightarrow> 'j js \<Rightarrow> 'j message list \<Rightarrow>
     error + (sarvam_message list \<times> translation_args \<times> warning list)" where
  "getArgs S J prompt =
     (if ts_from S = ts_to S
      then Inl (JsError ''Source and target languages code must be different.'')
      else if modelId S = ''sarvam-translate:v1''
              \<and> (case ts_mode S of None \<Rightarrow> ''formal'' | Some m \<Rightarrow> m) \<noteq> ''formal''
      then Inl (JsError ''Sarvam 'sarvam-translate:v1' only support mode formal.'')
      else if modelId S = ''sarvam-translate:v1''
              \<and> (case ts_from S of None \<Rightarrow> ''auto'' | Some f \<Rightarrow> f) = ''auto''
      then Inl (JsError ''Sarvam 'sarvam-translate:v1' requires source language code.'')
      else (case convertToSarvamChatMessages J prompt None of
              Inl e \<Rightarrow> Inl e
            | Inr messages \<Rightarrow>
                Inr (messages,
                     \<lparr>ta_input = joinWith [CHR 0x0A] (userContents messages),
                      ta_source_language_code = (case ts_from S of None \<Rightarrow> ''auto'' | Some f \<Rightarrow> f),
                      ta_target_language_code = ts_to S,
                      ta_numerals_format =
                        (case ts_numerals_format S of None \<Rightarrow> ''international'' | Some f \<Rightarrow> f),
                      ta_enable_preprocessing =
                        (case ts_enable_preprocessing S of None \<Rightarrow> False | Some b \<Rightarrow> b),
                      ta_output_script = ts_output_script S,
                      ta_speaker_gender =
                        (case ts_speaker_gender S of None \<Rightarrow> ''Male'' | Some g \<Rightarrow> g),
                      ta_mode = (case ts_mode S of None \<Rightarrow> ''formal'' | Some m \<Rightarrow> m),
                      ta_model = modelId S\<rparr>,
                     [])))"

text \<open>
  \<open>doGenerate\<close>. The HTTP call \<open>postJsonToApi\<close> is a function from the request body to
  an error or the response headers and the translated text; the first component of the
  result lists the request bodies posted.
\<close>

record generate_result =
  gr_content :: "string list"
  gr_finishReason :: finish_reason
  gr_usage :: usage
  gr_request :: translation_args
  gr_headers :: "(string \<times> string) list"
  gr_warnings :: "warning list"

definition doGenerate ::
  "translation_settings \<Rightarrow> 'j js \<Rightarrow>
   (translation_args \<Rightarrow> error + ((string \<times> string) list \<times> string option)) \<Rightarrow>
   'j message list \<Rightarrow> translation_args list \<times> (error + generate_result)" where
  "doGenerate S J postJsonToApi prompt =
     (case getArgs S J prompt of
        Inl e \<Rightarrow> ([], Inl e)
      | Inr (messages, args, warns) \<Rightarrow>
          (case postJsonToApi args of
             Inl e \<Rightarrow> ([args], Inl e)
           | Inr (responseHeaders, translated_text) \<Rightarrow>
               ([args],
                Inr \<lparr>gr_content =
                       (case translated_text of
                          None \<Rightarrow> []
                        | Some t \<Rightarrow> if t = [] then [] else [t]),
                     gr_finishReason = mapSarvamFinishReason Undefined,
                     gr_usage =
                       \<lparr>inputTokens = \<lparr>inputTotal = None, noCache = None, cacheRead = None,
                                        cacheWrite = None\<rparr>,
                        outputTokens = \<lparr>outputTotal = None, outputText = None,
                                         outputReasoning = None\<rparr>\<rparr>,
                     gr_request = args,
                     gr_headers = responseHeaders,
                     gr_warnings = warns\<rparr>)))"

section \<open>Observations on the stream\<close>

text \<open>
  What the statements below read off a fragment, a state or an enqueued sequence. None of
  it is part of the translator.
\<close>

text \<open>\<open>choices[0].delta\<close> of a fragment, when the fragment has one.\<close>

definition chunkDelta :: "chunk \<Rightarrow> delta_data option" where
  "chunkDelta c =
     (case c of
        Value v \<Rightarrow> (case firstChoice v of None \<Rightarrow> None | Some ch \<Rightarrow> delta ch)
      | _ \<Rightarrow> None)"

text \<open>The state of \<open>transform\<close> on a chunk value when it reaches \<open>choice.delta\<close>.\<close>

definition beforeDelta :: "stream_state \<Rightarrow> chunk_value \<Rightarrow> stream_state" where
  "beforeDelta s v = finishReasonStep (usageStep (s\<lparr>isFirstChunk := False\<rparr>) v) (firstChoice v)"

text \<open>The argument fragment of a tool-call delta: \<open>function.arguments ?? ""\<close>.\<close>

definition fragment :: "tool_call_delta \<Rightarrow> string" where
  "fragment d = (case tcd_arguments d of None \<Rightarrow> [] | Some a \<Rightarrow> a)"

text \<open>The events enqueued for one tool-call index, and the contents of its deltas.\<close>

definition toolEvents :: "int \<Rightarrow> tagged list \<Rightarrow> event list" where
  "toolEvents i tr = map snd (filter (\<lambda>p. fst p = Some i) tr)"

fun toolDeltaOf :: "event \<Rightarrow> string list" where
  "toolDeltaOf (ToolInputDelta c d) = [d]"
| "toolDeltaOf _ = []"

definition toolDeltas :: "int \<Rightarrow> tagged list \<Rightarrow> string list" where
  "toolDeltas i tr = concat (map toolDeltaOf (toolEvents i tr))"

text \<open>
  The entry of the array for an index against the events enqueued for that index so far:
  none without an entry; otherwise the start, the deltas, whose contents add up to the
  accumulated arguments, and, once the entry has finished, the end and the tool call with
  the accumulated arguments, which are parsable.
\<close>

definition toolShape :: "env \<Rightarrow> tool_call_state option \<Rightarrow> event list \<Rightarrow> bool" where
  "toolShape E st es =
     (case st of
        None \<Rightarrow> es = []
      | Some tc \<Rightarrow>
          (\<exists>ds. es = ToolInputStart (tc_id tc) (tc_name tc) # map (ToolInputDelta (tc_id tc)) ds
                      @ (if hasFinished tc
                         then [ToolInputEnd (tc_id tc),
                               ToolCall (tc_id tc) (tc_name tc) (tc_arguments tc)]
                         else [])
                \<and> concat ds = tc_arguments tc
                \<and> (hasFinished tc \<longrightarrow> isParsableJson E (tc_arguments tc))))"

text \<open>The events of the text channel and of the reasoning channel before \<open>flush\<close>.\<close>

fun isTextEv :: "event \<Rightarrow> bool" where
  "isTextEv (TextStart _) = True"
| "isTextEv (TextDelta _ _) = True"
| "isTextEv _ = False"

fun isReasoningEv :: "event \<Rightarrow> bool" where
  "isReasoningEv (ReasoningStart _) = True"
| "isReasoningEv (ReasoningDelta _ _) = True"
| "isReasoningEv _ = False"

text \<open>The non-empty text and reasoning fragments that arrive, in order.\<close>

definition chunkText :: "chunk \<Rightarrow> string list" where
  "chunkText c =
     (case chunkDelta c of
        None \<Rightarrow> []
      | Some d \<Rightarrow> (case content d of None \<Rightarrow> [] | Some t \<Rightarrow> if t = [] then [] else [t]))"

definition chunkReasoning :: "chunk \<Rightarrow> string list" where
  "chunkReasoning c =
     (case chunkDelta c of
        None \<Rightarrow> []
      | Some d \<Rightarrow> (case reasoning d of None \<Rightarrow> [] | Some t \<Rightarrow> if t = [] then [] else [t]))"

text \<open>
  What a fragment carries: its usage totals, the vendor finish reason of its first choice,
  and whether it failed structural validation. The events that only \<open>flush\<close> enqueues.
\<close>

definition chunkUsage :: "chunk \<Rightarrow> usage_data option" where
  "chunkUsage c =
     (case c of
        Value v \<Rightarrow> (case x_sarvam v of None \<Rightarrow> None | Some x \<Rightarrow> xs_usage x)
      | _ \<Rightarrow> None)"

definition toUsage :: "usage_data \<Rightarrow> usage" where
  "toUsage u =
     \<lparr>inputTokens = \<lparr>inputTotal = prompt_tokens u, noCache = None, cacheRead = None,
                      cacheWrite = None\<rparr>,
      outputTokens = \<lparr>outputTotal = completion_tokens u, outputText = None,
                       outputReasoning = None\<rparr>\<rparr>"

definition vendorFinish :: "chunk \<Rightarrow> string option" where
  "vendorFinish c =
     (case c of
        Value v \<Rightarrow>
          (case firstChoice v of
             None \<Rightarrow> None
           | Some ch \<Rightarrow> (case finish_reason ch of Val r \<Rightarrow> Some r | _ \<Rightarrow> None))
      | _ \<Rightarrow> None)"

fun malformed :: "chunk \<Rightarrow> bool" where
  "malformed (ParseFailure e) = True"
| "malformed (ErrorData e) = True"
| "malformed (Value v) = False"

fun isEndEv :: "event \<Rightarrow> bool" where
  "isEndEv (TextEnd _) = True"
| "isEndEv (ReasoningEnd _) = True"
| "isEndEv (Finish _ _) = True"
| "isEndEv _ = False"

text \<open>The start events of the three kinds of channel.\<close>

fun isTextStart :: "event \<Rightarrow> bool" where
  "isTextStart (TextStart _) = True"
| "isTextStart _ = False"

fun isReasoningStart :: "event \<Rightarrow> bool" where
  "isReasoningStart (ReasoningStart _) = True"
| "isReasoningStart _ = False"

fun isToolInputStart :: "event \<Rightarrow> bool" where
  "isToolInputStart (ToolInputStart _ _) = True"
| "isToolInputStart _ = False"

fun isToolCall :: "event \<Rightarrow> bool" where
  "isToolCall (ToolCall _ _ _) = True"
| "isToolCall _ = False"

text \<open>Every tool call in a sequence stands right after the tool-input-end of the same origin and id.\<close>

definition endBeforeCall :: "tagged list \<Rightarrow> bool" where
  "endBeforeCall tr =
     (\<forall>pre t c n inp post. tr = pre @ (t, ToolCall c n inp) # post
        \<longrightarrow> (\<exists>pre'. pre = pre' @ [(t, ToolInputEnd c)]))"

text \<open>
  Events enqueued outside the loop over the tool-call deltas, events enqueued inside it, and
  the pairing of each with its origin.
\<close>

fun isPlainEv :: "event \<Rightarrow> bool" where
  "isPlainEv (StreamStart _) = True"
| "isPlainEv (ResponseMetadata _) = True"
| "isPlainEv (ReasoningStart _) = True"
| "isPlainEv (ReasoningDelta _ _) = True"
| "isPlainEv (TextStart _) = True"
| "isPlainEv (TextDelta _ _) = True"
| "isPlainEv (ErrorEvent _) = True"
| "isPlainEv _ = False"

fun isToolEv :: "event \<Rightarrow> bool" where
  "isToolEv (ToolInputStart _ _) = True"
| "isToolEv (ToolInputDelta _ _) = True"
| "isToolEv (ToolInputEnd _) = True"
| "isToolEv (ToolCall _ _ _) = True"
| "isToolEv _ = False"

definition wfTag :: "tagged \<Rightarrow> bool" where
  "wfTag p = (case fst p of None \<Rightarrow> isPlainEv (snd p) | Some i \<Rightarrow> isToolEv (snd p))"

section \<open>Concrete instances of what is taken from outside\<close>

subsection \<open>A recognizer of JSON texts\<close>

text \<open>
  \<open>isParsableJson\<close> is a parameter of the translator. Where a run is evaluated it is this
  recognizer of the JSON grammar (RFC 8259), with fuel for the nesting.
\<close>

definition isWs :: "char \<Rightarrow> bool" where
  "isWs c = (c = CHR '' '' \<or> c = CHR 0x09 \<or> c = CHR 0x0A \<or> c = CHR 0x0D)"

definition isDigit :: "char \<Rightarrow> bool" where
  "isDigit c = (c \<in> set ''0123456789'')"

definition isHex :: "char \<Rightarrow> bool" where
  "isHex c = (c \<in> set ''0123456789abcdefABCDEF'')"

definition skipWs :: "string \<Rightarrow> string" where
  "skipWs s = dropWhile isWs s"

text \<open>The rest of the input after one or more digits.\<close>

definition digits1 :: "string \<Rightarrow> string option" where
  "digits1 s = (case s of [] \<Rightarrow> None | c # r \<Rightarrow> if isDigit c then Some (dropWhile isDigit r) else None)"

definition jsonExponent :: "string \<Rightarrow> string option" where
  "jsonExponent s =
     (case s of
        [] \<Rightarrow> Some s
      | c # r \<Rightarrow>
          if c = CHR ''e'' \<or> c = CHR ''E''
          then (case r of
                  [] \<Rightarrow> None
                | d # r' \<Rightarrow> if d = CHR ''+'' \<or> d = CHR ''-'' then digits1 r' else digits1 r)
          else Some s)"

definition jsonFraction :: "string \<Rightarrow> string option" where
  "jsonFraction s =
     (case s of
        [] \<Rightarrow> Some s
      | c # r \<Rightarrow>
          if c = CHR ''.''
          then (case digits1 r of None \<Rightarrow> None | Some r' \<Rightarrow> jsonExponent r')
          else jsonExponent s)"

definition jsonInt :: "string \<Rightarrow> string option" where
  "jsonInt s =
     (case s of
        [] \<Rightarrow> None
      | c # r \<Rightarrow>
          if c = CHR ''0'' then jsonFraction r
          else if isDigit c then jsonFraction (dropWhile isDigit r)
          else None)"

definition jsonNumber :: "string \<Rightarrow> string option" where
  "jsonNumber s =
     (case s of
        [] \<Rightarrow> None
      | c # r \<Rightarrow> if c = CHR ''-'' then jsonInt r else jsonInt s)"

text \<open>The rest of the input after the closing quote of a string whose opening quote is read.\<close>

fun jsonString :: "string \<Rightarrow> string option" where
  "jsonString [] = None"
| "jsonString [c] = (if c = CHR 0x22 then Some [] else None)"
| "jsonString (c # d # r) =
     (if c = CHR 0x22 then Some (d # r)
      else if c = CHR 0x5C
      then (if d \<in> set [CHR 0x22, CHR 0x5C, CHR ''/'', CHR ''b'', CHR ''f'', CHR ''n'', CHR ''r'', CHR ''t'']
            then jsonString r
            else if d = CHR ''u'' \<and> length r \<ge> 4 \<and> list_all isHex (take 4 r)
            then jsonString (drop 4 r)
            else None)
      else if of_char c < (32 :: nat) then None
      else jsonString (d # r))"

definition literal :: "string \<Rightarrow> string \<Rightarrow> string option" where
  "literal w s = (if prefix w s then Some (drop (length w) s) else None)"

fun jsonValue :: "nat \<Rightarrow> string \<Rightarrow> string option"
  and jsonElements :: "nat \<Rightarrow> string \<Rightarrow> string option"
  and jsonMembers :: "nat \<Rightarrow> string \<Rightarrow> string option" where
  "jsonValue 0 s = None"
| "jsonValue (Suc k) s =
     (case skipWs s of
        [] \<Rightarrow> None
      | c # r \<Rightarrow>
          if c = CHR ''[''
          then (case skipWs r of
                  [] \<Rightarrow> None
                | c' # r' \<Rightarrow> if c' = CHR '']'' then Some r' else jsonElements k r)
          else if c = CHR ''{''
          then (case skipWs r of
                  [] \<Rightarrow> None
                | c' # r' \<Rightarrow> if c' = CHR ''}'' then Some r' else jsonMembers k r)
          else if c = CHR 0x22 then jsonString r
          else if c = CHR ''t'' then literal ''true'' (c # r)
          else if c = CHR ''f'' then literal ''false'' (c # r)
          else if c = CHR ''n'' then literal ''null'' (c # r)
          else jsonNumber (c # r))"
| "jsonElements 0 s = None"
| "jsonElements (Suc k) s =
     (case jsonValue k s of
        None \<Rightarrow> None
      | Some r \<Rightarrow>
          (case skipWs r of
             [] \<Rightarrow> None
           | c # r' \<Rightarrow>
               if c = CHR '','' then jsonElements k r'
               else if c = CHR '']'' then Some r'
               else None))"
| "jsonMembers 0 s = None"
| "jsonMembers (Suc k) s =
     (case skipWs s of
        [] \<Rightarrow> None
      | q # r \<Rightarrow>
          if q \<noteq> CHR 0x22 then None
          else (case jsonString r of
                  None \<Rightarrow> None
                | Some r1 \<Rightarrow>
                    (case skipWs r1 of
                       [] \<Rightarrow> None
                     | c # r2 \<Rightarrow>
                         if c \<noteq> CHR '':'' then None
                         else (case jsonValue k r2 of
                                 None \<Rightarrow> None
                               | Some r3 \<Rightarrow>
                                   (case skipWs r3 of
                                      [] \<Rightarrow> None
                                    | c' # r4 \<Rightarrow>
                                        if c' = CHR '','' then jsonMembers k r4
                                        else if c' = CHR ''}'' then Some r4
                                        else None)))))"

definition jsonText :: "string \<Rightarrow> bool" where
  "jsonText s = (case jsonValue (2 * length s + 2) s of None \<Rightarrow> False | Some r \<Rightarrow> skipWs r = [])"


subsection \<open>Base64 and a JSON type\<close>

definition b64char :: "nat \<Rightarrow> char" where
  "b64char k = (''ABCDEFGHIJKLMNOPQRSTUVWXYZabcdefghijklmnopqrstuvwxyz0123456789+/'') ! k"

fun b64 :: "nat list \<Rightarrow> string" where
  "b64 [] = []"
| "b64 [a] = [b64char (a div 4), b64char ((a mod 4) * 16), CHR ''='', CHR ''='']"
| "b64 [a, b] =
     [b64char (a div 4), b64char ((a mod 4) * 16 + b div 16), b64char ((b mod 16) * 4), CHR ''='']"
| "b64 (a # b # c # r) =
     [b64char (a div 4), b64char ((a mod 4) * 16 + b div 16),
      b64char ((b mod 16) * 4 + c div 64), b64char (c mod 64)] @ b64 r"

text \<open>JSON values kept as their serialized texts, so that \<open>JSON.stringify\<close> returns them.\<close>

definition textJs :: "string js" where
  \<open>textJs =
     \<lparr>stringify = (\<lambda>j. j),
      stringifyOutput =
        (\<lambda>out. case out of
                  OutContent v \<Rightarrow> ''{"type":"content","value":'' @ v @ ''}''
                | _ \<Rightarrow> []),
      base64 = b64\<rparr>\<close>

subsection \<open>An environment for the stream\<close>

definition sampleEnv :: env where
  "sampleEnv =
     \<lparr>isParsableJson = jsonText,
      getResponseMetadata =
        (\<lambda>v. \<lparr>md_id = cv_id v, md_modelId = cv_model v,
               md_timestamp = map_option (\<lambda>t. t * 1000) (cv_created v)\<rparr>),
      textId = ''txt-0'',
      reasoningId = ''rsn-0'',
      warnings = [WarnOther ''Streaming is still experimental for Sarvam'']\<rparr>"

text \<open>Fragments shaped as the vendor sends them, for the runs evaluated below.\<close>

definition noDelta :: delta_data where
  "noDelta = \<lparr>content = None, reasoning = None, tool_calls = None\<rparr>"

definition sampleChunk :: "delta_data option \<Rightarrow> string nullish \<Rightarrow> usage_data option \<Rightarrow> chunk" where
  "sampleChunk d fr u =
     Value \<lparr>cv_id = Some ''chatcmpl-1'', cv_created = Some 1702657020, cv_model = Some ''sarvam-m'',
            choices = [\<lparr>delta = d, finish_reason = fr\<rparr>],
            x_sarvam = (case u of None \<Rightarrow> None | Some x \<Rightarrow> Some \<lparr>xs_usage = Some x\<rparr>)\<rparr>"

definition toolDelta :: "int \<Rightarrow> string option \<Rightarrow> string option \<Rightarrow> string option \<Rightarrow> tool_call_delta" where
  "toolDelta i c n a =
     \<lparr>tcd_index = i, tcd_id = c,
      tcd_type = (case c of None \<Rightarrow> None | Some _ \<Rightarrow> Some ''function''),
      tcd_name = n, tcd_arguments = a\<rparr>"

section \<open>Finish-reason mapping: properties\<close>

text \<open>
  C7. For every vendor finish-reason string, and for null and undefined,
  \<open>mapSarvamFinishReason\<close> returns a reason of the normalized enumeration: \<open>stop\<close> gives
  stop, \<open>length\<close> gives length, \<open>content_filter\<close> gives content-filter, \<open>function_call\<close> and
  \<open>tool_calls\<close> give tool-calls, every other input gives other; the raw field is the vendor
  string itself, and undefined when the input is null or undefined.
\<close>

theorem mapSarvamFinishReason_table:
  "unified (mapSarvamFinishReason (Val ''stop'')) = Stop
   \<and> unified (mapSarvamFinishReason (Val ''length'')) = Length
   \<and> unified (mapSarvamFinishReason (Val ''content_filter'')) = ContentFilter
   \<and> unified (mapSarvamFinishReason (Val ''function_call'')) = ToolCalls
   \<and> unified (mapSarvamFinishReason (Val ''tool_calls'')) = ToolCalls
   \<and> (x \<notin> Val ` {''stop'', ''length'', ''content_filter'', ''function_call'', ''tool_calls''}
        \<longrightarrow> unified (mapSarvamFinishReason x) = Other)
   \<and> unified (mapSarvamFinishReason x) \<in> {Stop, Length, ContentFilter, ToolCalls, Error, Other}
   \<and> raw (mapSarvamFinishReason (Val s)) = Some s
   \<and> raw (mapSarvamFinishReason Null) = None
   \<and> raw (mapSarvamFinishReason Undefined) = None"
  by (cases x) auto

theorem mapSarvamFinishReason_table_witness:
  "Val ''eos'' \<notin> Val ` {''stop'', ''length'', ''content_filter'', ''function_call'', ''tool_calls''}
   \<and> unified (mapSarvamFinishReason (Val ''eos'')) = Other
   \<and> raw (mapSarvamFinishReason (Val ''eos'')) = Some ''eos''"
  using mapSarvamFinishReason_table [of "Val ''eos''" "''eos''"] by simp


section \<open>Message converter: properties\<close>

lemma userParts_images:
  "list_all imageOrText ps \<Longrightarrow> userParts J ps = Inr (map (imagePart J) ps)"
proof (induction ps)
  case Nil then show ?case by simp
next
  case (Cons p ps)
  then show ?case
  proof (cases p)
    case (UserText t) with Cons show ?thesis by simp
  next
    case (UserFile mt d) with Cons show ?thesis by (cases d) simp_all
  qed
qed

lemma assistantLoop_acc:
  "assistantLoop J acc calls ps =
     (acc @ concat (map assistantText ps), calls @ concat (map (assistantCalls J) ps))"
  by (induction J acc calls ps rule: assistantLoop.induct) simp_all

lemma toolLoop_acc: "toolLoop J messages ps = messages @ concat (map (toolResultMessage J) ps)"
  by (induction J messages ps rule: toolLoop.induct) simp_all

lemma not_single_text:
  "(\<And>t. ps \<noteq> [UserText t]) \<Longrightarrow> (case ps of [UserText t] \<Rightarrow> f t | _ \<Rightarrow> g) = g"
  by (auto split: list.splits user_part.splits)

lemma some_if_nonempty:
  "(if length xs > 0 then Some xs else None) = (case xs of [] \<Rightarrow> None | c # cs \<Rightarrow> Some (c # cs))"
  by (cases xs) simp_all

lemma convertLoop_acc:
  "list_all imagesOnly prompt \<Longrightarrow>
   convertLoop J fake messages prompt = Inr (messages @ concat (map (turnMessages J fake) prompt))"
proof (induction prompt arbitrary: messages)
  case Nil then show ?case by simp
next
  case (Cons m ms)
  show ?case
  proof (cases m)
    case (SystemMessage c)
    with Cons show ?thesis by simp
  next
    case (UserMessage ps)
    with Cons have img: "list_all imageOrText ps" by simp
    show ?thesis
    proof (cases "\<exists>t. ps = [UserText t]")
      case True
      with Cons UserMessage show ?thesis by auto
    next
      case False
      then have ns: "\<And>t. ps \<noteq> [UserText t]" by simp
      from Cons UserMessage show ?thesis
        by (simp add: not_single_text[OF ns] userParts_images[OF img])
    qed
  next
    case (AssistantMessage ps)
    with Cons show ?thesis
      by (simp add: assistantLoop_acc some_if_nonempty del: length_greater_0_conv)
  next
    case (ToolMessage ps)
    with Cons show ?thesis by (simp add: toolLoop_acc)
  qed
qed

text \<open>
  C8. For every prompt of system, user, assistant and tool turns whose file parts are
  images, \<open>convertToSarvamChatMessages\<close> returns the vendor messages of the turns in the order
  of the turns: one system message for a system turn; one user message for a user turn, a
  plain string when the turn is a single text part and otherwise the array of its text and
  image_url parts; one assistant message for an assistant turn, with the text parts
  concatenated and the tool calls collected; one tool message for each tool-result part of a
  tool turn.
\<close>

theorem convert_turn_by_turn:
  assumes "list_all imagesOnly prompt"
  shows "convertToSarvamChatMessages J prompt fake = Inr (concat (map (turnMessages J fake) prompt))"
  using convertLoop_acc[OF assms, of J fake "[]"] by (simp add: convertToSarvamChatMessages_def)




theorem convert_turn_by_turn_witness:
  \<open>list_all imagesOnly
     [SystemMessage ''Be brief.'',
      UserMessage [UserText ''Hello''],
      UserMessage [UserText ''What is this?'', UserFile ''image/png'' (DataBytes [77, 97, 110])],
      AssistantMessage [AssistantText ''Let me '', AssistantToolCall ''call_1'' ''lookup'' ''{"q":1}'',
                        AssistantText ''check.''],
      ToolMessage [ToolResult ''call_1'' (OutText ''42''), ToolApprovalResponse,
                   ToolResult ''call_2'' (OutExecutionDenied None)]]
   \<and> convertToSarvamChatMessages textJs
     [SystemMessage ''Be brief.'',
      UserMessage [UserText ''Hello''],
      UserMessage [UserText ''What is this?'', UserFile ''image/png'' (DataBytes [77, 97, 110])],
      AssistantMessage [AssistantText ''Let me '', AssistantToolCall ''call_1'' ''lookup'' ''{"q":1}'',
                        AssistantText ''check.''],
      ToolMessage [ToolResult ''call_1'' (OutText ''42''), ToolApprovalResponse,
                   ToolResult ''call_2'' (OutExecutionDenied None)]] None
     = Inr [SarvamSystem ''Be brief.'',
            SarvamUser (ContentString ''Hello''),
            SarvamUser (ContentParts [PartText ''What is this?'', PartImage ''data:image/png;base64,TWFu'']),
            SarvamAssistant ''Let me check.''
              (Some [\<lparr>mtc_id = ''call_1'', mtc_name = ''lookup'', mtc_arguments = ''{"q":1}''\<rparr>]),
            SarvamTool ''call_1'' ''42'',
            SarvamTool ''call_2'' ''Tool execution denied'']\<close>
proof -
  have h: \<open>list_all imagesOnly
     [SystemMessage ''Be brief.'',
      UserMessage [UserText ''Hello''],
      UserMessage [UserText ''What is this?'', UserFile ''image/png'' (DataBytes [77, 97, 110])],
      AssistantMessage [AssistantText ''Let me '', AssistantToolCall ''call_1'' ''lookup'' ''{"q":1}'',
                        AssistantText ''check.''],
      ToolMessage [ToolResult ''call_1'' (OutText ''42''), ToolApprovalResponse,
                   ToolResult ''call_2'' (OutExecutionDenied None)]]\<close>
    by simp
  have r: \<open>concat (map (turnMessages textJs None)
     [SystemMessage ''Be brief.'',
      UserMessage [UserText ''Hello''],
      UserMessage [UserText ''What is this?'', UserFile ''image/png'' (DataBytes [77, 97, 110])],
      AssistantMessage [AssistantText ''Let me '', AssistantToolCall ''call_1'' ''lookup'' ''{"q":1}'',
                        AssistantText ''check.''],
      ToolMessage [ToolResult ''call_1'' (OutText ''42''), ToolApprovalResponse,
                   ToolResult ''call_2'' (OutExecutionDenied None)]]) =
     [SarvamSystem ''Be brief.'',
      SarvamUser (ContentString ''Hello''),
      SarvamUser (ContentParts [PartText ''What is this?'', PartImage ''data:image/png;base64,TWFu'']),
      SarvamAssistant ''Let me check.''
        (Some [\<lparr>mtc_id = ''call_1'', mtc_name = ''lookup'', mtc_arguments = ''{"q":1}''\<rparr>]),
      SarvamTool ''call_1'' ''42'',
      SarvamTool ''call_2'' ''Tool execution denied'']\<close>
    by (simp add: textJs_def b64char_def)
  show ?thesis
    unfolding convert_turn_by_turn [OF h] r using h by simp
qed

section \<open>Translation adapter: properties\<close>

text \<open>
  C10. Whenever the configured source language equals the target language, and, for the
  model \<open>sarvam-translate:v1\<close>, whenever the mode is set to something other than \<open>formal\<close> or
  the source language is \<open>auto\<close> or unset, \<open>doGenerate\<close> throws an Error out of \<open>getArgs\<close>:
  no request body is built and no request is posted.
\<close>

theorem getArgs_rejects_before_request:
  assumes "ts_from S = ts_to S
           \<or> (modelId S = ''sarvam-translate:v1''
               \<and> ((\<exists>m. ts_mode S = Some m \<and> m \<noteq> ''formal'')
                  \<or> ts_from S = Some ''auto'' \<or> ts_from S = None))"
  shows "\<exists>msg. getArgs S J prompt = Inl (JsError msg)
               \<and> doGenerate S J postJsonToApi prompt = ([], Inl (JsError msg))"
  using assms
  by (auto simp: getArgs_def doGenerate_def split: option.splits)



theorem getArgs_rejects_before_request_witness:
  "doGenerate \<lparr>ts_model = None, ts_from = Some ''hi-IN'', ts_to = Some ''hi-IN'', ts_mode = None,
       ts_numerals_format = None, ts_enable_preprocessing = None, ts_output_script = None,
       ts_speaker_gender = None\<rparr> textJs (\<lambda>a. Inr ([], Some ''ok'')) [UserMessage [UserText ''Hello'']]
     = ([], Inl (JsError ''Source and target languages code must be different.''))
   \<and> doGenerate \<lparr>ts_model = Some ''sarvam-translate:v1'', ts_from = Some ''hi-IN'', ts_to = Some ''en-IN'',
       ts_mode = Some ''modern-colloquial'',
       ts_numerals_format = None, ts_enable_preprocessing = None, ts_output_script = None,
       ts_speaker_gender = None\<rparr> textJs (\<lambda>a. Inr ([], Some ''ok'')) [UserMessage [UserText ''Hello'']]
     = ([], Inl (JsError ''Sarvam 'sarvam-translate:v1' only support mode formal.''))
   \<and> doGenerate \<lparr>ts_model = Some ''sarvam-translate:v1'', ts_from = None, ts_to = Some ''en-IN'',
       ts_mode = None,
       ts_numerals_format = None, ts_enable_preprocessing = None, ts_output_script = None,
       ts_speaker_gender = None\<rparr> textJs (\<lambda>a. Inr ([], Some ''ok'')) [UserMessage [UserText ''Hello'']]
     = ([], Inl (JsError ''Sarvam 'sarvam-translate:v1' requires source language code.''))"
  using getArgs_rejects_before_request [of "\<lparr>ts_model = None, ts_from = Some ''hi-IN'', ts_to = Some ''hi-IN'', ts_mode = None,
       ts_numerals_format = None, ts_enable_preprocessing = None, ts_output_script = None,
       ts_speaker_gender = None\<rparr>" textJs "[UserMessage [UserText ''Hello'']]" "\<lambda>a. Inr ([], Some ''ok'')"]
    getArgs_rejects_before_request [of "\<lparr>ts_model = Some ''sarvam-translate:v1'', ts_from = Some ''hi-IN'', ts_to = Some ''en-IN'',
       ts_mode = Some ''modern-colloquial'',
       ts_numerals_format = None, ts_enable_preprocessing = None, ts_output_script = None,
       ts_speaker_gender = None\<rparr>" textJs "[UserMessage [UserText ''Hello'']]" "\<lambda>a. Inr ([], Some ''ok'')"]
    getArgs_rejects_before_request [of "\<lparr>ts_model = Some ''sarvam-translate:v1'', ts_from = None, ts_to = Some ''en-IN'',
       ts_mode = None,
       ts_numerals_format = None, ts_enable_preprocessing = None, ts_output_script = None,
       ts_speaker_gender = None\<rparr>" textJs "[UserMessage [UserText ''Hello'']]" "\<lambda>a. Inr ([], Some ''ok'')"]
  by (simp add: getArgs_def modelId_def)


section \<open>Stream accumulator: the steps of \<open>transform\<close>\<close>

lemma snd_untagged [simp]: "map snd (untagged evs) = evs"
  by (simp add: untagged_def comp_def)

lemma transform_Value_cases:
  assumes "transform E s (Value v) = (evs, r)"
  obtains
    (NoDelta) "chunkDelta (Value v) = None" "evs = untagged (firstChunkEvents E s v)" "r = Inr (beforeDelta s v)"
  | (NoTools) d ev2 s4 ev3 s5 where "chunkDelta (Value v) = Some d" "tool_calls d = None"
      "reasoningStep E (beforeDelta s v) d = (ev2, s4)" "textStep E s4 d = (ev3, s5)"
      "evs = untagged (firstChunkEvents E s v @ ev2 @ ev3)" "r = Inr s5"
  | (Threw) d ev2 s4 ev3 s5 tds ev4 e where "chunkDelta (Value v) = Some d" "tool_calls d = Some tds"
      "reasoningStep E (beforeDelta s v) d = (ev2, s4)" "textStep E s4 d = (ev3, s5)"
      "toolCallsLoop E (toolCalls s5) tds = (ev4, Inl e)"
      "evs = untagged (firstChunkEvents E s v @ ev2 @ ev3) @ ev4" "r = Inl e"
  | (Tools) d ev2 s4 ev3 s5 tds ev4 tcs where "chunkDelta (Value v) = Some d" "tool_calls d = Some tds"
      "reasoningStep E (beforeDelta s v) d = (ev2, s4)" "textStep E s4 d = (ev3, s5)"
      "toolCallsLoop E (toolCalls s5) tds = (ev4, Inr tcs)"
      "evs = untagged (firstChunkEvents E s v @ ev2 @ ev3) @ ev4" "r = Inr (s5\<lparr>toolCalls := tcs\<rparr>)"
  using assms
  by (simp add: transform_def chunkDelta_def beforeDelta_def Let_def split: option.splits prod.splits sum.splits)

lemma transform_bad:
  "transform E s (ParseFailure e) = (untagged [ErrorEvent e], Inr (s\<lparr>finishReason := \<lparr>unified = Error, raw = None\<rparr>\<rparr>))"
  "transform E s (ErrorData e) = (untagged [ErrorEvent e], Inr (s\<lparr>finishReason := \<lparr>unified = Error, raw = None\<rparr>\<rparr>))"
  by (simp_all add: transform_def)

lemma beforeDelta_fields:
  "textStarted (beforeDelta s v) = textStarted s"
  "reasoningStarted (beforeDelta s v) = reasoningStarted s"
  "toolCalls (beforeDelta s v) = toolCalls s"
  "isFirstChunk (beforeDelta s v) = False"
  by (simp_all add: beforeDelta_def finishReasonStep_def usageStep_def split: option.splits nullish.splits)

lemma reasoningStep_fields:
  assumes "reasoningStep E s d = (evs, s')"
  shows "textStarted s' = textStarted s" "toolCalls s' = toolCalls s"
    "finishReason s' = finishReason s" "usageTotals s' = usageTotals s"
  using assms by (auto simp: reasoningStep_def split: option.splits if_splits)

lemma textStep_fields:
  assumes "textStep E s d = (evs, s')"
  shows "reasoningStarted s' = reasoningStarted s" "toolCalls s' = toolCalls s"
    "finishReason s' = finishReason s" "usageTotals s' = usageTotals s"
  using assms by (auto simp: textStep_def split: option.splits if_splits)

lemma toolCallStep_notText: "toolCallStep E tcs d = (evs, r) \<Longrightarrow> filter isTextEv evs = []"
  by (auto simp: toolCallStep_def Let_def split: option.splits if_splits)

lemma toolCallsLoop_notText: "toolCallsLoop E tcs ds = (evs, r) \<Longrightarrow> filter isTextEv (map snd evs) = []"
proof (induction ds arbitrary: tcs evs r)
  case Nil then show ?case by simp
next
  case (Cons d ds)
  then show ?case
    by (auto split: prod.splits sum.splits dest: toolCallStep_notText simp: comp_def)
qed

lemma firstChunk_notText: "filter isTextEv (firstChunkEvents E s v) = []"
  by (simp add: firstChunkEvents_def)

lemma reasoningStep_notText: "reasoningStep E s d = (evs, s') \<Longrightarrow> filter isTextEv evs = []"
  by (auto simp: reasoningStep_def split: option.splits if_splits)

lemma textStep_text:
  "textStep E s d = (evs, s') \<Longrightarrow>
   filter isTextEv evs =
     (if textStarted s \<or> (case content d of None \<Rightarrow> [] | Some t \<Rightarrow> if t = [] then [] else [t]) = [] then [] else [TextStart (textId E)])
     @ map (TextDelta (textId E)) (case content d of None \<Rightarrow> [] | Some t \<Rightarrow> if t = [] then [] else [t])
   \<and> textStarted s' = (textStarted s \<or> (case content d of None \<Rightarrow> [] | Some t \<Rightarrow> if t = [] then [] else [t]) \<noteq> [])"
  by (auto simp: textStep_def split: option.splits if_splits)


lemma transform_text_Value:
  assumes t: "transform E s (Value v) = (evs, r)"
  shows "filter isTextEv (map snd evs) =
     (if textStarted s \<or> chunkText (Value v) = [] then [] else [TextStart (textId E)])
     @ map (TextDelta (textId E)) (chunkText (Value v))
     \<and> (r = Inr s' \<longrightarrow> textStarted s' = (textStarted s \<or> chunkText (Value v) \<noteq> []))"
  using t
proof (cases rule: transform_Value_cases)
  case NoDelta
  then show ?thesis by (auto simp: chunkText_def firstChunk_notText beforeDelta_fields)
next
  case (NoTools d ev2 s4 ev3 s5)
  then show ?thesis
    using textStep_text[OF NoTools(4)] reasoningStep_notText[OF NoTools(3)] reasoningStep_fields(1)[OF NoTools(3)]
    by (auto simp: chunkText_def firstChunk_notText beforeDelta_fields)
next
  case (Threw d ev2 s4 ev3 s5 tds ev4 e)
  then show ?thesis
    using textStep_text[OF Threw(4)] reasoningStep_notText[OF Threw(3)] reasoningStep_fields(1)[OF Threw(3)]
      toolCallsLoop_notText[OF Threw(5)]
    by (auto simp: chunkText_def firstChunk_notText beforeDelta_fields)
next
  case (Tools d ev2 s4 ev3 s5 tds ev4 tcs)
  then show ?thesis
    using textStep_text[OF Tools(4)] reasoningStep_notText[OF Tools(3)] reasoningStep_fields(1)[OF Tools(3)]
      toolCallsLoop_notText[OF Tools(5)]
    by (auto simp: chunkText_def firstChunk_notText beforeDelta_fields)
qed

lemma transform_text:
  assumes "transform E s c = (evs, r)"
  shows "filter isTextEv (map snd evs) =
     (if textStarted s \<or> chunkText c = [] then [] else [TextStart (textId E)]) @ map (TextDelta (textId E)) (chunkText c)
     \<and> (r = Inr s' \<longrightarrow> textStarted s' = (textStarted s \<or> chunkText c \<noteq> []))"
proof (cases c)
  case (ParseFailure e)
  with assms show ?thesis by (auto simp: transform_bad chunkText_def chunkDelta_def)
next
  case (ErrorData e)
  with assms show ?thesis by (auto simp: transform_bad chunkText_def chunkDelta_def)
next
  case (Value v)
  with assms transform_text_Value show ?thesis by simp
qed

lemma toolEvents_simps [simp]:
  "toolEvents i [] = []"
  "toolEvents i (xs @ ys) = toolEvents i xs @ toolEvents i ys"
  "toolEvents i (untagged evs) = []"
  "toolEvents i (map (Pair (Some j)) evs) = (if i = j then evs else [])"
  by (auto simp: toolEvents_def untagged_def filter_map comp_def)

lemma toolCallStep_invalid:
  assumes "tcs (tcd_index d) = None"
    and "tcd_type d \<noteq> Some ''function'' \<or> tcd_id d = None \<or> tcd_name d = None"
  shows "\<exists>msg. toolCallStep E tcs d = ([], Inl (InvalidResponseDataError d msg))"
  using assms by (auto simp: toolCallStep_def split: option.splits)

lemma toolCallStep_new:
  assumes "tcs (tcd_index d) = None" "tcd_type d = Some ''function''" "tcd_id d = Some c"
    "tcd_name d = Some n"
  shows "toolCallStep E tcs d =
     (ToolInputStart c n # (if fragment d = [] then [] else [ToolInputDelta c (fragment d)])
        @ (if isParsableJson E (fragment d) then [ToolInputEnd c, ToolCall c n (fragment d)] else []),
      Inr (tcs(tcd_index d \<mapsto> \<lparr>tc_id = c, tc_name = n, tc_arguments = fragment d,
                                 hasFinished = isParsableJson E (fragment d)\<rparr>)))"
  using assms by (simp add: toolCallStep_def fragment_def Let_def)

lemma toolCallStep_finished:
  assumes "tcs (tcd_index d) = Some tc" "hasFinished tc"
  shows "toolCallStep E tcs d = ([], Inr tcs)"
  using assms by (simp add: toolCallStep_def)

lemma toolCallStep_open:
  assumes "tcs (tcd_index d) = Some tc" "\<not> hasFinished tc"
  shows "toolCallStep E tcs d =
     (ToolInputDelta (tc_id tc) (fragment d)
        # (if isParsableJson E (tc_arguments tc @ fragment d)
           then [ToolInputEnd (tc_id tc), ToolCall (tc_id tc) (tc_name tc) (tc_arguments tc @ fragment d)]
           else []),
      Inr (tcs(tcd_index d \<mapsto> tc\<lparr>tc_arguments := tc_arguments tc @ fragment d,
                                   hasFinished := isParsableJson E (tc_arguments tc @ fragment d)\<rparr>)))"
proof -
  have same: "tc\<lparr>hasFinished := False\<rparr> = tc" using assms(2) by simp
  show ?thesis
  proof (cases "tcd_arguments d")
    case None
    with assms show ?thesis by (simp add: toolCallStep_def fragment_def Let_def same)
  next
    case (Some a)
    have upd: "tc\<lparr>tc_arguments := tc_arguments tc @ a, hasFinished := False\<rparr> = tc\<lparr>tc_arguments := tc_arguments tc @ a\<rparr>"
      using assms(2) by (cases tc) simp
    from Some assms show ?thesis by (simp add: toolCallStep_def fragment_def Let_def upd)
  qed
qed

lemma toolCallStep_valid:
  "tcs (tcd_index d) = None \<Longrightarrow> toolCallStep E tcs d = (evs, Inr tcs') \<Longrightarrow>
   tcd_type d = Some ''function'' \<and> (\<exists>c. tcd_id d = Some c) \<and> (\<exists>n. tcd_name d = Some n)"
  by (auto simp: toolCallStep_def split: option.splits if_splits)

lemma toolCallStep_throw: "toolCallStep E tcs d = (evs, Inl e) \<Longrightarrow> evs = []"
  by (auto simp: toolCallStep_def Let_def split: option.splits if_splits)

lemma toolCallStep_other:
  "toolCallStep E tcs d = (evs, Inr tcs') \<Longrightarrow> tcd_index d \<noteq> i \<Longrightarrow> tcs' i = tcs i"
  by (auto simp: toolCallStep_def Let_def split: option.splits if_splits)

lemma toolCallStep_shape:
  assumes step: "toolCallStep E tcs d = (evs, Inr tcs')" and sh: "toolShape E (tcs i) es"
  shows "toolShape E (tcs' i) (es @ (if tcd_index d = i then evs else []))"
proof (cases "tcd_index d = i")
  case False
  with sh toolCallStep_other[OF step False] show ?thesis by simp
next
  case True
  show ?thesis
  proof (cases "tcs i")
    case None
    with sh have es: "es = []" by (simp add: toolShape_def)
    from toolCallStep_valid[of tcs d E evs tcs'] None True step
    obtain c n where valid: "tcd_type d = Some ''function''" and cn: "tcd_id d = Some c" "tcd_name d = Some n"
      by auto
    from toolCallStep_new[of tcs d c n E] None True valid cn step
    have evs: "evs = ToolInputStart c n # (if fragment d = [] then [] else [ToolInputDelta c (fragment d)])
        @ (if isParsableJson E (fragment d) then [ToolInputEnd c, ToolCall c n (fragment d)] else [])"
      and tcs': "tcs' = tcs(tcd_index d \<mapsto> \<lparr>tc_id = c, tc_name = n, tc_arguments = fragment d,
                                 hasFinished = isParsableJson E (fragment d)\<rparr>)"
      by simp_all
    show ?thesis
      unfolding toolShape_def
      using True es evs tcs'
      by (auto intro: exI[of _ "[fragment d]"] exI[of _ "[]"])
  next
    case (Some tc)
    show ?thesis
    proof (cases "hasFinished tc")
      case fin: True
      with toolCallStep_finished[of tcs d tc E] Some True step sh show ?thesis by simp
    next
      case False
      from sh Some False obtain ds where
        es: "es = ToolInputStart (tc_id tc) (tc_name tc) # map (ToolInputDelta (tc_id tc)) ds"
        and ds: "concat ds = tc_arguments tc"
        by (auto simp: toolShape_def)
      from toolCallStep_open[of tcs d tc E] Some True False step
      have evs: "evs = ToolInputDelta (tc_id tc) (fragment d)
        # (if isParsableJson E (tc_arguments tc @ fragment d)
           then [ToolInputEnd (tc_id tc), ToolCall (tc_id tc) (tc_name tc) (tc_arguments tc @ fragment d)]
           else [])"
        and tcs': "tcs' = tcs(tcd_index d \<mapsto> tc\<lparr>tc_arguments := tc_arguments tc @ fragment d,
                                   hasFinished := isParsableJson E (tc_arguments tc @ fragment d)\<rparr>)"
        by simp_all
      show ?thesis
        unfolding toolShape_def
        using True es ds evs tcs'
        by (auto intro!: exI[of _ "ds @ [fragment d]"])
    qed
  qed
qed

lemma toolCallsLoop_shape:
  assumes "toolCallsLoop E tcs ds = (evs, r)" "toolShape E (tcs i) es"
  shows "\<exists>st. toolShape E st (es @ toolEvents i evs) \<and> (\<forall>tcs'. r = Inr tcs' \<longrightarrow> st = tcs' i)"
  using assms
proof (induction ds arbitrary: tcs evs es)
  case Nil
  then show ?case by auto
next
  case (Cons d ds)
  obtain ev1 r1 where step: "toolCallStep E tcs d = (ev1, r1)" by (cases "toolCallStep E tcs d")
  show ?case
  proof (cases r1)
    case (Inl e)
    with step Cons.prems toolCallStep_throw[of E tcs d ev1 e] show ?thesis by auto
  next
    case (Inr tcs1)
    obtain ev2 r2 where rest: "toolCallsLoop E tcs1 ds = (ev2, r2)" by (cases "toolCallsLoop E tcs1 ds")
    from step Inr rest Cons.prems(1) have evs: "evs = map (Pair (Some (tcd_index d))) ev1 @ ev2" and r: "r = r2"
      by simp_all
    from toolCallStep_shape[OF step[unfolded Inr] Cons.prems(2)]
    have "toolShape E (tcs1 i) (es @ (if tcd_index d = i then ev1 else []))" .
    from Cons.IH[OF rest[folded r] this] show ?thesis unfolding evs by auto
  qed
qed


lemma wfTag_untagged: "list_all isPlainEv evs \<Longrightarrow> list_all wfTag (untagged evs)"
  by (induction evs) (auto simp: untagged_def wfTag_def)

lemma toolCallStep_toolEv: "toolCallStep E tcs d = (evs, r) \<Longrightarrow> list_all isToolEv evs"
  by (auto simp: toolCallStep_def Let_def split: option.splits if_splits)

lemma wfTag_tagged: "list_all isToolEv evs \<Longrightarrow> list_all wfTag (map (Pair (Some i)) evs)"
  by (induction evs) (auto simp: wfTag_def)

lemma toolCallsLoop_wfTag: "toolCallsLoop E tcs ds = (evs, r) \<Longrightarrow> list_all wfTag evs"
proof (induction ds arbitrary: tcs evs r)
  case Nil then show ?case by simp
next
  case (Cons d ds)
  obtain ev1 r1 where step: "toolCallStep E tcs d = (ev1, r1)" by (cases "toolCallStep E tcs d")
  note w1 = wfTag_tagged[OF toolCallStep_toolEv[OF step], of "tcd_index d"]
  show ?case
  proof (cases r1)
    case (Inl e)
    with step Cons.prems w1 show ?thesis by auto
  next
    case (Inr tcs1)
    obtain ev2 r2 where rest: "toolCallsLoop E tcs1 ds = (ev2, r2)" by (cases "toolCallsLoop E tcs1 ds")
    from Cons.IH[OF rest] step Inr rest Cons.prems w1 show ?thesis by auto
  qed
qed

lemma firstChunk_plain: "list_all isPlainEv (firstChunkEvents E s v)"
  by (simp add: firstChunkEvents_def)

lemma reasoningStep_plain: "reasoningStep E s d = (evs, s') \<Longrightarrow> list_all isPlainEv evs"
  by (auto simp: reasoningStep_def split: option.splits if_splits)

lemma textStep_plain: "textStep E s d = (evs, s') \<Longrightarrow> list_all isPlainEv evs"
  by (auto simp: textStep_def split: option.splits if_splits)

lemma transform_wfTag:
  assumes "transform E s c = (evs, r)"
  shows "list_all wfTag evs"
proof (cases c)
  case (ParseFailure e)
  with assms show ?thesis by (auto simp: transform_bad untagged_def wfTag_def)
next
  case (ErrorData e)
  with assms show ?thesis by (auto simp: transform_bad untagged_def wfTag_def)
next
  case (Value v)
  with assms have t: "transform E s (Value v) = (evs, r)" by simp
  from t show ?thesis
  proof (cases rule: transform_Value_cases)
    case NoDelta
    then show ?thesis by (simp add: wfTag_untagged firstChunk_plain)
  next
    case (NoTools d ev2 s4 ev3 s5)
    then show ?thesis
      using reasoningStep_plain[OF NoTools(3)] textStep_plain[OF NoTools(4)]
      by (simp add: wfTag_untagged firstChunk_plain)
  next
    case (Threw d ev2 s4 ev3 s5 tds ev4 e)
    then show ?thesis
      using reasoningStep_plain[OF Threw(3)] textStep_plain[OF Threw(4)] toolCallsLoop_wfTag[OF Threw(5)]
      by (simp add: wfTag_untagged firstChunk_plain)
  next
    case (Tools d ev2 s4 ev3 s5 tds ev4 tcs)
    then show ?thesis
      using reasoningStep_plain[OF Tools(3)] textStep_plain[OF Tools(4)] toolCallsLoop_wfTag[OF Tools(5)]
      by (simp add: wfTag_untagged firstChunk_plain)
  qed
qed

lemma transformAll_wfTag: "transformAll E s cs = (tr, r) \<Longrightarrow> list_all wfTag tr"
proof (induction cs arbitrary: s tr r)
  case Nil then show ?case by simp
next
  case (Cons c cs)
  obtain ev1 r1 where step: "transform E s c = (ev1, r1)" by (cases "transform E s c")
  note w1 = transform_wfTag[OF step]
  show ?case
  proof (cases r1)
    case (Inl e)
    with step Cons.prems w1 show ?thesis by auto
  next
    case (Inr s1)
    obtain ev2 r2 where rest: "transformAll E s1 cs = (ev2, r2)" by (cases "transformAll E s1 cs")
    from Cons.IH[OF rest] step Inr rest Cons.prems w1 show ?thesis by auto
  qed
qed

lemma transform_shape:
  assumes t: "transform E s c = (evs, r)" and sh: "toolShape E (toolCalls s i) es"
  shows "\<exists>st. toolShape E st (es @ toolEvents i evs) \<and> (\<forall>s'. r = Inr s' \<longrightarrow> st = toolCalls s' i)"
proof (cases c)
  case (ParseFailure e)
  with t sh show ?thesis by (auto simp: transform_bad)
next
  case (ErrorData e)
  with t sh show ?thesis by (auto simp: transform_bad)
next
  case (Value v)
  with t have t: "transform E s (Value v) = (evs, r)" by simp
  from t show ?thesis
  proof (cases rule: transform_Value_cases)
    case NoDelta
    with sh show ?thesis by (auto simp: beforeDelta_fields)
  next
    case (NoTools d ev2 s4 ev3 s5)
    with sh show ?thesis
      using reasoningStep_fields(2)[OF NoTools(3)] textStep_fields(2)[OF NoTools(4)]
      by (auto simp: beforeDelta_fields)
  next
    case (Threw d ev2 s4 ev3 s5 tds ev4 e)
    have "toolCalls s5 = toolCalls s"
      using reasoningStep_fields(2)[OF Threw(3)] textStep_fields(2)[OF Threw(4)]
      by (simp add: beforeDelta_fields)
    with sh have "toolShape E (toolCalls s5 i) es" by simp
    from toolCallsLoop_shape[OF Threw(5) this] Threw(6,7) show ?thesis by auto
  next
    case (Tools d ev2 s4 ev3 s5 tds ev4 tcs)
    have "toolCalls s5 = toolCalls s"
      using reasoningStep_fields(2)[OF Tools(3)] textStep_fields(2)[OF Tools(4)]
      by (simp add: beforeDelta_fields)
    with sh have "toolShape E (toolCalls s5 i) es" by simp
    from toolCallsLoop_shape[OF Tools(5) this] Tools(6,7) show ?thesis by auto
  qed
qed

lemma transformAll_shape:
  assumes "transformAll E s cs = (tr, r)" "toolShape E (toolCalls s i) es"
  shows "\<exists>st. toolShape E st (es @ toolEvents i tr) \<and> (\<forall>s'. r = Inr s' \<longrightarrow> st = toolCalls s' i)"
  using assms
proof (induction cs arbitrary: s tr es)
  case Nil then show ?case by auto
next
  case (Cons c cs)
  obtain ev1 r1 where step: "transform E s c = (ev1, r1)" by (cases "transform E s c")
  from transform_shape[OF step Cons.prems(2)] obtain st where
    st: "toolShape E st (es @ toolEvents i ev1)" "\<forall>s'. r1 = Inr s' \<longrightarrow> st = toolCalls s' i" by blast
  show ?case
  proof (cases r1)
    case (Inl e)
    with step Cons.prems(1) st show ?thesis by auto
  next
    case (Inr s1)
    obtain ev2 r2 where rest: "transformAll E s1 cs = (ev2, r2)" by (cases "transformAll E s1 cs")
    from step Inr rest Cons.prems(1) have tr: "tr = ev1 @ ev2" and r: "r = r2" by simp_all
    from st Inr have "toolShape E (toolCalls s1 i) (es @ toolEvents i ev1)" by simp
    from Cons.IH[OF rest[folded r] this] show ?thesis unfolding tr by simp
  qed
qed

lemma pipeThrough_shape:
  assumes "pipeThrough E cs = (tr, r)"
  shows "\<exists>st. toolShape E st (toolEvents i tr)"
proof -
  obtain body r0 where b: "transformAll E initial cs = (body, r0)" by (cases "transformAll E initial cs")
  have "toolShape E (toolCalls initial i) []" by (simp add: initial_def toolShape_def)
  from transformAll_shape[OF b this] obtain st where st: "toolShape E st (toolEvents i body)" by auto
  show ?thesis
  proof (cases r0)
    case (Inl e)
    with b assms st show ?thesis by (auto simp: pipeThrough_def)
  next
    case (Inr s')
    with b assms st show ?thesis by (auto simp: pipeThrough_def flush_def)
  qed
qed

lemma toolCallsLoop_append:
  "toolCallsLoop E tcs (xs @ ys) =
     (case toolCallsLoop E tcs xs of
        (ev, Inl e) \<Rightarrow> (ev, Inl e)
      | (ev, Inr tcs') \<Rightarrow> (case toolCallsLoop E tcs' ys of (ev', r) \<Rightarrow> (ev @ ev', r)))"
  by (induction xs arbitrary: tcs) (auto split: prod.splits sum.splits)

lemma transformAll_append:
  "transformAll E s (xs @ ys) =
     (case transformAll E s xs of
        (ev, Inl e) \<Rightarrow> (ev, Inl e)
      | (ev, Inr s') \<Rightarrow> (case transformAll E s' ys of (ev', r) \<Rightarrow> (ev @ ev', r)))"
  by (induction xs arbitrary: s) (auto split: prod.splits sum.splits)

lemma wfTag_tool:
  "list_all wfTag evs \<Longrightarrow> (Some i, e) \<in> set evs \<Longrightarrow> isToolEv e"
  by (auto simp: list_all_iff wfTag_def)

lemma wfTag_plain:
  "list_all wfTag evs \<Longrightarrow> (None, e) \<in> set evs \<Longrightarrow> isPlainEv e"
  by (auto simp: list_all_iff wfTag_def)

lemma beforeDelta_usage:
  "usageTotals (beforeDelta s v) =
     (case chunkUsage (Value v) of None \<Rightarrow> usageTotals s | Some u \<Rightarrow> toUsage u)"
  by (simp add: beforeDelta_def finishReasonStep_def usageStep_def chunkUsage_def toUsage_def
      split: option.splits nullish.splits)

lemma transform_usage:
  assumes "transform E s c = (evs, Inr s')"
  shows "usageTotals s' = (case chunkUsage c of None \<Rightarrow> usageTotals s | Some u \<Rightarrow> toUsage u)"
proof (cases c)
  case (ParseFailure e)
  with assms show ?thesis by (auto simp: transform_bad chunkUsage_def)
next
  case (ErrorData e)
  with assms show ?thesis by (auto simp: transform_bad chunkUsage_def)
next
  case (Value v)
  with assms have t: "transform E s (Value v) = (evs, Inr s')" by simp
  from t show ?thesis
  proof (cases rule: transform_Value_cases)
    case NoDelta
    then show ?thesis by (simp add: beforeDelta_usage Value)
  next
    case (NoTools d ev2 s4 ev3 s5)
    then show ?thesis
      using reasoningStep_fields(4)[OF NoTools(3)] textStep_fields(4)[OF NoTools(4)]
      by (simp add: beforeDelta_usage Value)
  next
    case (Threw d ev2 s4 ev3 s5 tds ev4 e)
    then show ?thesis by simp
  next
    case (Tools d ev2 s4 ev3 s5 tds ev4 tcs)
    then show ?thesis
      using reasoningStep_fields(4)[OF Tools(3)] textStep_fields(4)[OF Tools(4)]
      by (simp add: beforeDelta_usage Value)
  qed
qed

lemma transformAll_usage_none:
  assumes "transformAll E s cs = (tr, Inr s')" "\<forall>c\<in>set cs. chunkUsage c = None"
  shows "usageTotals s' = usageTotals s"
  using assms
proof (induction cs arbitrary: s tr)
  case Nil then show ?case by simp
next
  case (Cons c cs)
  obtain ev1 r1 where step: "transform E s c = (ev1, r1)" by (cases "transform E s c")
  show ?case
  proof (cases r1)
    case (Inl e)
    with step Cons.prems show ?thesis by simp
  next
    case (Inr s1)
    obtain ev2 r2 where rest: "transformAll E s1 cs = (ev2, r2)" by (cases "transformAll E s1 cs")
    from step Inr rest Cons.prems(1) have r2: "r2 = Inr s'" by simp
    from Cons.IH[OF rest[unfolded r2]] Cons.prems(2) have "usageTotals s' = usageTotals s1" by simp
    with transform_usage[OF step[unfolded Inr]] Cons.prems(2) show ?thesis by simp
  qed
qed

lemma transformAll_split:
  assumes "transformAll E s (pre @ c # post) = (tr, Inr s')"
  obtains tr1 s1 tr2 s2 tr3 where
    "transformAll E s pre = (tr1, Inr s1)" "transform E s1 c = (tr2, Inr s2)"
    "transformAll E s2 post = (tr3, Inr s')" "tr = tr1 @ tr2 @ tr3"
  using assms
  by (auto simp: transformAll_append split: prod.splits sum.splits)

lemma pipeThrough_None:
  assumes "pipeThrough E cs = (tr, None)"
  obtains body s' where "transformAll E initial cs = (body, Inr s')" "tr = body @ flush E s'"
  using assms by (auto simp: pipeThrough_def split: prod.splits sum.splits)

lemma pipeThrough_Some:
  assumes "pipeThrough E cs = (tr, Some e)"
  shows "transformAll E initial cs = (tr, Inl e)"
  using assms by (auto simp: pipeThrough_def split: prod.splits sum.splits)

lemma flush_last:
  "flush E s = untagged ((if reasoningStarted s then [ReasoningEnd (reasoningId E)] else [])
               @ (if textStarted s then [TextEnd (textId E)] else []))
     @ [(None, Finish (finishReason s) (usageTotals s))]"
  by (simp add: flush_def untagged_def)

lemma pipeThrough_last:
  assumes "pipeThrough E cs = (tr, None)"
  obtains body s' evs where "transformAll E initial cs = (body, Inr s')"
    "tr = evs @ [(None, Finish (finishReason s') (usageTotals s'))]"
proof -
  from assms obtain body s' where b: "transformAll E initial cs = (body, Inr s')" "tr = body @ flush E s'"
    by (rule pipeThrough_None)
  from b(2) flush_last[of E s'] have "tr = (body @ untagged ((if reasoningStarted s' then [ReasoningEnd (reasoningId E)] else [])
               @ (if textStarted s' then [TextEnd (textId E)] else []))) @ [(None, Finish (finishReason s') (usageTotals s'))]"
    by simp
  with b(1) that show ?thesis by blast
qed

lemmas run_defs = pipeThrough_def initial_def transform_def flush_def untagged_def sampleChunk_def
  noDelta_def firstChunkEvents_def usageStep_def firstChoice_def finishReasonStep_def
  reasoningStep_def textStep_def sampleEnv_def Let_def toolDelta_def toolCallStep_def

section \<open>Stream accumulator: usage totals\<close>

text \<open>
  C6. When a fragment carries usage totals, the tracked usage becomes that fragment's
  values, whatever it was before; so the usage of the terminal finish event is the usage of
  the last fragment that carried usage totals.
\<close>

theorem usage_last_write_wins:
  assumes "chunkUsage c = Some u" and "\<forall>c'\<in>set post. chunkUsage c' = None"
    and "pipeThrough E (pre @ c # post) = (tr, None)"
  shows "(\<exists>evs fr. tr = evs @ [(None, Finish fr (toUsage u))])
         \<and> (\<forall>s evs s'. transform E s c = (evs, Inr s') \<longrightarrow> usageTotals s' = toUsage u)"
proof -
  from assms(3) obtain body s' evs where run: "transformAll E initial (pre @ c # post) = (body, Inr s')"
    and tr: "tr = evs @ [(None, Finish (finishReason s') (usageTotals s'))]"
    by (rule pipeThrough_last)
  from run obtain tr1 s1 tr2 s2 tr3 where
    b: "transform E s1 c = (tr2, Inr s2)" and c: "transformAll E s2 post = (tr3, Inr s')"
    by (rule transformAll_split)
  from transform_usage[OF b] assms(1) have "usageTotals s2 = toUsage u" by simp
  with transformAll_usage_none[OF c assms(2)] have u: "usageTotals s' = toUsage u" by simp
  have "\<forall>s evs s'. transform E s c = (evs, Inr s') \<longrightarrow> usageTotals s' = toUsage u"
    using transform_usage[of E _ c] assms(1) by simp
  with tr u show ?thesis by blast
qed

theorem usage_last_write_wins_witness:
  "chunkUsage (sampleChunk (Some noDelta) Null (Some \<lparr>prompt_tokens = Some 18, completion_tokens = Some 439\<rparr>))
     = Some \<lparr>prompt_tokens = Some 18, completion_tokens = Some 439\<rparr>
   \<and> chunkUsage (sampleChunk None (Val ''stop'') None) = None
   \<and> pipeThrough sampleEnv
        ([sampleChunk (Some (noDelta\<lparr>content := Some ''Hi''\<rparr>)) Null
            (Some \<lparr>prompt_tokens = Some 5, completion_tokens = Some 7\<rparr>)]
         @ sampleChunk (Some noDelta) Null (Some \<lparr>prompt_tokens = Some 18, completion_tokens = Some 439\<rparr>)
         # [sampleChunk None (Val ''stop'') None])
       = ([(None, StreamStart [WarnOther ''Streaming is still experimental for Sarvam'']),
           (None, ResponseMetadata \<lparr>md_id = Some ''chatcmpl-1'', md_modelId = Some ''sarvam-m'',
                                    md_timestamp = Some 1702657020000\<rparr>),
           (None, TextStart ''txt-0''),
           (None, TextDelta ''txt-0'' ''Hi''),
           (None, TextEnd ''txt-0''),
           (None, Finish \<lparr>unified = Stop, raw = Some ''stop''\<rparr>
                   (toUsage \<lparr>prompt_tokens = Some 18, completion_tokens = Some 439\<rparr>))], None)
   \<and> (\<exists>evs fr.
         [(None :: int option, StreamStart [WarnOther ''Streaming is still experimental for Sarvam'']),
          (None, ResponseMetadata \<lparr>md_id = Some ''chatcmpl-1'', md_modelId = Some ''sarvam-m'',
                                   md_timestamp = Some 1702657020000\<rparr>),
          (None, TextStart ''txt-0''),
          (None, TextDelta ''txt-0'' ''Hi''),
          (None, TextEnd ''txt-0''),
          (None, Finish \<lparr>unified = Stop, raw = Some ''stop''\<rparr>
                  (toUsage \<lparr>prompt_tokens = Some 18, completion_tokens = Some 439\<rparr>))]
         = evs @ [(None, Finish fr (toUsage \<lparr>prompt_tokens = Some 18, completion_tokens = Some 439\<rparr>))])"
  (is "?h1 \<and> ?h2 \<and> ?run \<and> ?concl")
proof -
  have h1: ?h1 by (simp add: chunkUsage_def sampleChunk_def)
  have h2: ?h2 by (simp add: chunkUsage_def sampleChunk_def)
  have h2': "\<forall>c'\<in>set [sampleChunk None (Val ''stop'') None]. chunkUsage c' = None"
    using h2 by simp
  have run: ?run by (simp add: run_defs toUsage_def)
  have c: ?concl using usage_last_write_wins [OF h1 h2' run] by (elim conjE) assumption
  show ?thesis using h1 h2 run c by (intro conjI) assumption+
qed

section \<open>Stream accumulator: malformed fragments and the finish reason\<close>

lemma beforeDelta_finish:
  "finishReason (beforeDelta s v) =
     (case vendorFinish (Value v) of None \<Rightarrow> finishReason s | Some r \<Rightarrow> mapSarvamFinishReason (Val r))"
  by (simp add: beforeDelta_def finishReasonStep_def usageStep_def vendorFinish_def
      split: option.splits nullish.splits)

lemma transform_finish:
  assumes "transform E s c = (evs, Inr s')"
  shows "finishReason s' =
     (if malformed c then \<lparr>unified = Error, raw = None\<rparr>
      else case vendorFinish c of None \<Rightarrow> finishReason s | Some r \<Rightarrow> mapSarvamFinishReason (Val r))"
proof (cases c)
  case (ParseFailure e)
  with assms show ?thesis by (auto simp: transform_bad)
next
  case (ErrorData e)
  with assms show ?thesis by (auto simp: transform_bad)
next
  case (Value v)
  with assms have t: "transform E s (Value v) = (evs, Inr s')" by simp
  from t show ?thesis
  proof (cases rule: transform_Value_cases)
    case NoDelta
    then show ?thesis by (simp add: beforeDelta_finish Value)
  next
    case (NoTools d ev2 s4 ev3 s5)
    then show ?thesis
      using reasoningStep_fields(3)[OF NoTools(3)] textStep_fields(3)[OF NoTools(4)]
      by (simp add: beforeDelta_finish Value)
  next
    case (Threw d ev2 s4 ev3 s5 tds ev4 e)
    then show ?thesis by simp
  next
    case (Tools d ev2 s4 ev3 s5 tds ev4 tcs)
    then show ?thesis
      using reasoningStep_fields(3)[OF Tools(3)] textStep_fields(3)[OF Tools(4)]
      by (simp add: beforeDelta_finish Value)
  qed
qed

lemma transformAll_finish_none:
  assumes "transformAll E s cs = (tr, Inr s')" "\<forall>c\<in>set cs. vendorFinish c = None"
    "finishReason s = \<lparr>unified = Error, raw = None\<rparr>"
  shows "finishReason s' = \<lparr>unified = Error, raw = None\<rparr>"
  using assms
proof (induction cs arbitrary: s tr)
  case Nil then show ?case by simp
next
  case (Cons c cs)
  obtain ev1 r1 where step: "transform E s c = (ev1, r1)" by (cases "transform E s c")
  show ?case
  proof (cases r1)
    case (Inl e)
    with step Cons.prems show ?thesis by simp
  next
    case (Inr s1)
    obtain ev2 r2 where rest: "transformAll E s1 cs = (ev2, r2)" by (cases "transformAll E s1 cs")
    from step Inr rest Cons.prems(1) have r2: "r2 = Inr s'" by simp
    from transform_finish[OF step[unfolded Inr]] Cons.prems(2,3)
    have "finishReason s1 = \<lparr>unified = Error, raw = None\<rparr>" by simp
    from Cons.IH[OF rest[unfolded r2] _ this] Cons.prems(2) show ?thesis by simp
  qed
qed

text \<open>
  C2, as the code has it. After a fragment that fails structural validation, a later
  fragment is still translated, and its finish reason replaces the error finish reason:
  here an error fragment is followed by a fragment with text and the vendor reason
  \<open>stop\<close>.
\<close>

theorem later_finish_reason_counterexample:
  "pipeThrough sampleEnv
     [ErrorData ''server error'',
      sampleChunk (Some (noDelta\<lparr>content := Some ''Hello''\<rparr>)) (Val ''stop'') None]
   = ([(None, ErrorEvent ''server error''),
       (None, StreamStart [WarnOther ''Streaming is still experimental for Sarvam'']),
       (None, ResponseMetadata \<lparr>md_id = Some ''chatcmpl-1'', md_modelId = Some ''sarvam-m'',
                                md_timestamp = Some 1702657020000\<rparr>),
       (None, TextStart ''txt-0''),
       (None, TextDelta ''txt-0'' ''Hello''),
       (None, TextEnd ''txt-0''),
       (None, Finish \<lparr>unified = Stop, raw = Some ''stop''\<rparr> (usageTotals initial))],
      None)"
  by (simp add: run_defs)

text \<open>
  C2, amended. On a fragment that fails structural validation (an unsuccessful parse or
  an error object) \<open>transform\<close> enqueues one error event, sets the finish reason to error
  and does nothing else with that fragment. When no later fragment carries a vendor finish
  reason and \<open>transform\<close> never throws, the stream ends with a finish event whose reason is
  error.
\<close>

theorem malformed_fragment_finish:
  assumes "malformed c" and "\<forall>c'\<in>set post. vendorFinish c' = None"
    and "pipeThrough E (pre @ c # post) = (tr, None)"
  shows "(\<exists>evs us. tr = evs @ [(None, Finish \<lparr>unified = Error, raw = None\<rparr> us)])
         \<and> (\<forall>s. \<exists>e. transform E s c
               = ([(None, ErrorEvent e)], Inr (s\<lparr>finishReason := \<lparr>unified = Error, raw = None\<rparr>\<rparr>)))"
proof -
  have one: "\<forall>s. \<exists>e. transform E s c
               = ([(None, ErrorEvent e)], Inr (s\<lparr>finishReason := \<lparr>unified = Error, raw = None\<rparr>\<rparr>))"
    using assms(1) by (cases c) (simp_all add: transform_bad untagged_def)
  from assms(3) obtain body s' evs where run: "transformAll E initial (pre @ c # post) = (body, Inr s')"
    and tr: "tr = evs @ [(None, Finish (finishReason s') (usageTotals s'))]"
    by (rule pipeThrough_last)
  from run obtain tr1 s1 tr2 s2 tr3 where
    b: "transform E s1 c = (tr2, Inr s2)" and c: "transformAll E s2 post = (tr3, Inr s')"
    by (rule transformAll_split)
  from transform_finish[OF b] assms(1) have "finishReason s2 = \<lparr>unified = Error, raw = None\<rparr>" by simp
  from transformAll_finish_none[OF c assms(2) this]
  have fr: "finishReason s' = \<lparr>unified = Error, raw = None\<rparr>" .
  with tr one show ?thesis by auto
qed

theorem malformed_fragment_finish_witness:
  "malformed (ErrorData ''server error'')
   \<and> vendorFinish (sampleChunk (Some (noDelta\<lparr>content := Some ''late''\<rparr>)) Null None) = None
   \<and> pipeThrough sampleEnv
        ([sampleChunk (Some (noDelta\<lparr>content := Some ''Hi''\<rparr>)) (Val ''stop'') None]
         @ ErrorData ''server error''
         # [sampleChunk (Some (noDelta\<lparr>content := Some ''late''\<rparr>)) Null None])
       = ([(None, StreamStart [WarnOther ''Streaming is still experimental for Sarvam'']),
           (None, ResponseMetadata \<lparr>md_id = Some ''chatcmpl-1'', md_modelId = Some ''sarvam-m'',
                                    md_timestamp = Some 1702657020000\<rparr>),
           (None, TextStart ''txt-0''),
           (None, TextDelta ''txt-0'' ''Hi''),
           (None, ErrorEvent ''server error''),
           (None, TextDelta ''txt-0'' ''late''),
           (None, TextEnd ''txt-0''),
           (None, Finish \<lparr>unified = Error, raw = None\<rparr> (usageTotals initial))], None)
   \<and> (\<exists>evs us.
         [(None :: int option, StreamStart [WarnOther ''Streaming is still experimental for Sarvam'']),
          (None, ResponseMetadata \<lparr>md_id = Some ''chatcmpl-1'', md_modelId = Some ''sarvam-m'',
                                   md_timestamp = Some 1702657020000\<rparr>),
          (None, TextStart ''txt-0''),
          (None, TextDelta ''txt-0'' ''Hi''),
          (None, ErrorEvent ''server error''),
          (None, TextDelta ''txt-0'' ''late''),
          (None, TextEnd ''txt-0''),
          (None, Finish \<lparr>unified = Error, raw = None\<rparr> (usageTotals initial))]
         = evs @ [(None, Finish \<lparr>unified = Error, raw = None\<rparr> us)])"
  (is "?h1 \<and> ?h2 \<and> ?run \<and> ?concl")
proof -
  have h1: ?h1 by simp
  have h2: ?h2 by (simp add: vendorFinish_def sampleChunk_def firstChoice_def)
  have h2': "\<forall>c'\<in>set [sampleChunk (Some (noDelta\<lparr>content := Some ''late''\<rparr>)) Null None].
               vendorFinish c' = None"
    using h2 by simp
  have run: ?run by (simp add: run_defs)
  have c: ?concl using malformed_fragment_finish [OF h1 h2' run] by (elim conjE) assumption
  show ?thesis using h1 h2 run c by (intro conjI) assumption+
qed

section \<open>Stream accumulator: the text and reasoning channels\<close>

lemma toolCallStep_notReasoning: "toolCallStep E tcs d = (evs, r) \<Longrightarrow> filter isReasoningEv evs = []"
  by (auto simp: toolCallStep_def Let_def split: option.splits if_splits)

lemma toolCallsLoop_notReasoning: "toolCallsLoop E tcs ds = (evs, r) \<Longrightarrow> filter isReasoningEv (map snd evs) = []"
proof (induction ds arbitrary: tcs evs r)
  case Nil then show ?case by simp
next
  case (Cons d ds)
  then show ?case
    by (auto split: prod.splits sum.splits dest: toolCallStep_notReasoning simp: comp_def)
qed

lemma firstChunk_notReasoning: "filter isReasoningEv (firstChunkEvents E s v) = []"
  by (simp add: firstChunkEvents_def)

lemma textStep_notReasoning: "textStep E s d = (evs, s') \<Longrightarrow> filter isReasoningEv evs = []"
  by (auto simp: textStep_def split: option.splits if_splits)

lemma reasoningStep_reasoning:
  "reasoningStep E s d = (evs, s') \<Longrightarrow>
   filter isReasoningEv evs =
     (if reasoningStarted s \<or> (case reasoning d of None \<Rightarrow> [] | Some t \<Rightarrow> if t = [] then [] else [t]) = [] then [] else [ReasoningStart (reasoningId E)])
     @ map (ReasoningDelta (reasoningId E)) (case reasoning d of None \<Rightarrow> [] | Some t \<Rightarrow> if t = [] then [] else [t])
   \<and> reasoningStarted s' = (reasoningStarted s \<or> (case reasoning d of None \<Rightarrow> [] | Some t \<Rightarrow> if t = [] then [] else [t]) \<noteq> [])"
  by (auto simp: reasoningStep_def split: option.splits if_splits)


lemma transform_reasoning_Value:
  assumes t: "transform E s (Value v) = (evs, r)"
  shows "filter isReasoningEv (map snd evs) =
     (if reasoningStarted s \<or> chunkReasoning (Value v) = [] then [] else [ReasoningStart (reasoningId E)])
     @ map (ReasoningDelta (reasoningId E)) (chunkReasoning (Value v))
     \<and> (r = Inr s' \<longrightarrow> reasoningStarted s' = (reasoningStarted s \<or> chunkReasoning (Value v) \<noteq> []))"
  using t
proof (cases rule: transform_Value_cases)
  case NoDelta
  then show ?thesis by (auto simp: chunkReasoning_def firstChunk_notReasoning beforeDelta_fields)
next
  case (NoTools d ev2 s4 ev3 s5)
  then show ?thesis
    using reasoningStep_reasoning[OF NoTools(3)] textStep_notReasoning[OF NoTools(4)] textStep_fields(1)[OF NoTools(4)]
    by (auto simp: chunkReasoning_def firstChunk_notReasoning beforeDelta_fields)
next
  case (Threw d ev2 s4 ev3 s5 tds ev4 e)
  then show ?thesis
    using reasoningStep_reasoning[OF Threw(3)] textStep_notReasoning[OF Threw(4)] textStep_fields(1)[OF Threw(4)]
      toolCallsLoop_notReasoning[OF Threw(5)]
    by (auto simp: chunkReasoning_def firstChunk_notReasoning beforeDelta_fields)
next
  case (Tools d ev2 s4 ev3 s5 tds ev4 tcs)
  then show ?thesis
    using reasoningStep_reasoning[OF Tools(3)] textStep_notReasoning[OF Tools(4)] textStep_fields(1)[OF Tools(4)]
      toolCallsLoop_notReasoning[OF Tools(5)]
    by (auto simp: chunkReasoning_def firstChunk_notReasoning beforeDelta_fields)
qed

lemma transform_reasoning:
  assumes "transform E s c = (evs, r)"
  shows "filter isReasoningEv (map snd evs) =
     (if reasoningStarted s \<or> chunkReasoning c = [] then [] else [ReasoningStart (reasoningId E)]) @ map (ReasoningDelta (reasoningId E)) (chunkReasoning c)
     \<and> (r = Inr s' \<longrightarrow> reasoningStarted s' = (reasoningStarted s \<or> chunkReasoning c \<noteq> []))"
proof (cases c)
  case (ParseFailure e)
  with assms show ?thesis by (auto simp: transform_bad chunkReasoning_def chunkDelta_def)
next
  case (ErrorData e)
  with assms show ?thesis by (auto simp: transform_bad chunkReasoning_def chunkDelta_def)
next
  case (Value v)
  with assms transform_reasoning_Value show ?thesis by simp
qed




lemma transformAll_text:
  assumes "transformAll E s cs = (tr, r)"
  shows "\<exists>ds. filter isTextEv (map snd tr) =
            (if textStarted s \<or> ds = [] then [] else [TextStart (textId E)]) @ map (TextDelta (textId E)) ds
          \<and> prefix ds (concat (map chunkText cs))
          \<and> (\<forall>s'. r = Inr s' \<longrightarrow> ds = concat (map chunkText cs) \<and> textStarted s' = (textStarted s \<or> ds \<noteq> []))"
  using assms
proof (induction cs arbitrary: s tr)
  case Nil
  then show ?case by auto
next
  case (Cons c cs)
  obtain ev1 r1 where step: "transform E s c = (ev1, r1)" by (cases "transform E s c")
  have f1: "filter isTextEv (map snd ev1) =
     (if textStarted s \<or> chunkText c = [] then [] else [TextStart (textId E)]) @ map (TextDelta (textId E)) (chunkText c)"
    using transform_text[OF step, of undefined] by (rule conjunct1)
  show ?case
  proof (cases r1)
    case (Inl e)
    with step Cons.prems have tr: "tr = ev1" and r: "r = Inl e" by simp_all
    show ?thesis
    proof (intro exI[of _ "chunkText c"] conjI)
      show "filter isTextEv (map snd tr) =
        (if textStarted s \<or> chunkText c = [] then [] else [TextStart (textId E)]) @ map (TextDelta (textId E)) (chunkText c)"
        unfolding tr by (rule f1)
      show "prefix (chunkText c) (concat (map chunkText (c # cs)))" by simp
      show "\<forall>s'. r = Inr s' \<longrightarrow> chunkText c = concat (map chunkText (c # cs))
              \<and> textStarted s' = (textStarted s \<or> chunkText c \<noteq> [])"
        unfolding r by simp
    qed
  next
    case (Inr s1)
    obtain ev2 r2 where rest: "transformAll E s1 cs = (ev2, r2)" by (cases "transformAll E s1 cs")
    from step Inr rest Cons.prems have tr: "tr = ev1 @ ev2" and r: "r = r2" by simp_all
    have s1: "textStarted s1 = (textStarted s \<or> chunkText c \<noteq> [])"
      using transform_text[OF step, of s1] Inr by simp
    from Cons.IH[OF rest[folded r]] obtain ds where
      d1: "filter isTextEv (map snd ev2) =
            (if textStarted s1 \<or> ds = [] then [] else [TextStart (textId E)]) @ map (TextDelta (textId E)) ds"
      and d2: "prefix ds (concat (map chunkText cs))"
      and d3: "\<forall>s'. r = Inr s' \<longrightarrow> ds = concat (map chunkText cs) \<and> textStarted s' = (textStarted s1 \<or> ds \<noteq> [])"
      by blast
    show ?thesis
    proof (intro exI[of _ "chunkText c @ ds"] conjI)
      show "filter isTextEv (map snd tr) =
        (if textStarted s \<or> chunkText c @ ds = [] then [] else [TextStart (textId E)])
        @ map (TextDelta (textId E)) (chunkText c @ ds)"
      proof (cases "chunkText c = []")
        case True
        with s1 have "textStarted s1 = textStarted s" by simp
        with True show ?thesis unfolding tr by (simp add: f1 d1)
      next
        case False
        with s1 have "textStarted s1" by simp
        with False show ?thesis unfolding tr by (simp add: f1 d1)
      qed
      show "prefix (chunkText c @ ds) (concat (map chunkText (c # cs)))" using d2 by simp
      show "\<forall>s'. r = Inr s' \<longrightarrow> chunkText c @ ds = concat (map chunkText (c # cs))
              \<and> textStarted s' = (textStarted s \<or> chunkText c @ ds \<noteq> [])"
      proof (intro allI impI)
        fix s' assume "r = Inr s'"
        with d3 have "ds = concat (map chunkText cs)" "textStarted s' = (textStarted s1 \<or> ds \<noteq> [])" by simp_all
        with s1 show "chunkText c @ ds = concat (map chunkText (c # cs))
              \<and> textStarted s' = (textStarted s \<or> chunkText c @ ds \<noteq> [])" by simp
      qed
    qed
  qed
qed

lemma transformAll_reasoning:
  assumes "transformAll E s cs = (tr, r)"
  shows "\<exists>ds. filter isReasoningEv (map snd tr) =
            (if reasoningStarted s \<or> ds = [] then [] else [ReasoningStart (reasoningId E)]) @ map (ReasoningDelta (reasoningId E)) ds
          \<and> prefix ds (concat (map chunkReasoning cs))
          \<and> (\<forall>s'. r = Inr s' \<longrightarrow> ds = concat (map chunkReasoning cs) \<and> reasoningStarted s' = (reasoningStarted s \<or> ds \<noteq> []))"
  using assms
proof (induction cs arbitrary: s tr)
  case Nil
  then show ?case by auto
next
  case (Cons c cs)
  obtain ev1 r1 where step: "transform E s c = (ev1, r1)" by (cases "transform E s c")
  have f1: "filter isReasoningEv (map snd ev1) =
     (if reasoningStarted s \<or> chunkReasoning c = [] then [] else [ReasoningStart (reasoningId E)]) @ map (ReasoningDelta (reasoningId E)) (chunkReasoning c)"
    using transform_reasoning[OF step, of undefined] by (rule conjunct1)
  show ?case
  proof (cases r1)
    case (Inl e)
    with step Cons.prems have tr: "tr = ev1" and r: "r = Inl e" by simp_all
    show ?thesis
    proof (intro exI[of _ "chunkReasoning c"] conjI)
      show "filter isReasoningEv (map snd tr) =
        (if reasoningStarted s \<or> chunkReasoning c = [] then [] else [ReasoningStart (reasoningId E)]) @ map (ReasoningDelta (reasoningId E)) (chunkReasoning c)"
        unfolding tr by (rule f1)
      show "prefix (chunkReasoning c) (concat (map chunkReasoning (c # cs)))" by simp
      show "\<forall>s'. r = Inr s' \<longrightarrow> chunkReasoning c = concat (map chunkReasoning (c # cs))
              \<and> reasoningStarted s' = (reasoningStarted s \<or> chunkReasoning c \<noteq> [])"
        unfolding r by simp
    qed
  next
    case (Inr s1)
    obtain ev2 r2 where rest: "transformAll E s1 cs = (ev2, r2)" by (cases "transformAll E s1 cs")
    from step Inr rest Cons.prems have tr: "tr = ev1 @ ev2" and r: "r = r2" by simp_all
    have s1: "reasoningStarted s1 = (reasoningStarted s \<or> chunkReasoning c \<noteq> [])"
      using transform_reasoning[OF step, of s1] Inr by simp
    from Cons.IH[OF rest[folded r]] obtain ds where
      d1: "filter isReasoningEv (map snd ev2) =
            (if reasoningStarted s1 \<or> ds = [] then [] else [ReasoningStart (reasoningId E)]) @ map (ReasoningDelta (reasoningId E)) ds"
      and d2: "prefix ds (concat (map chunkReasoning cs))"
      and d3: "\<forall>s'. r = Inr s' \<longrightarrow> ds = concat (map chunkReasoning cs) \<and> reasoningStarted s' = (reasoningStarted s1 \<or> ds \<noteq> [])"
      by blast
    show ?thesis
    proof (intro exI[of _ "chunkReasoning c @ ds"] conjI)
      show "filter isReasoningEv (map snd tr) =
        (if reasoningStarted s \<or> chunkReasoning c @ ds = [] then [] else [ReasoningStart (reasoningId E)])
        @ map (ReasoningDelta (reasoningId E)) (chunkReasoning c @ ds)"
      proof (cases "chunkReasoning c = []")
        case True
        with s1 have "reasoningStarted s1 = reasoningStarted s" by simp
        with True show ?thesis unfolding tr by (simp add: f1 d1)
      next
        case False
        with s1 have "reasoningStarted s1" by simp
        with False show ?thesis unfolding tr by (simp add: f1 d1)
      qed
      show "prefix (chunkReasoning c @ ds) (concat (map chunkReasoning (c # cs)))" using d2 by simp
      show "\<forall>s'. r = Inr s' \<longrightarrow> chunkReasoning c @ ds = concat (map chunkReasoning (c # cs))
              \<and> reasoningStarted s' = (reasoningStarted s \<or> chunkReasoning c @ ds \<noteq> [])"
      proof (intro allI impI)
        fix s' assume "r = Inr s'"
        with d3 have "ds = concat (map chunkReasoning cs)" "reasoningStarted s' = (reasoningStarted s1 \<or> ds \<noteq> [])" by simp_all
        with s1 show "chunkReasoning c @ ds = concat (map chunkReasoning (c # cs))
              \<and> reasoningStarted s' = (reasoningStarted s \<or> chunkReasoning c @ ds \<noteq> [])" by simp
      qed
    qed
  qed
qed

lemma wfTag_notEnd: "list_all wfTag tr \<Longrightarrow> x \<in> set tr \<Longrightarrow> \<not> isEndEv (snd x)"
  by (cases x, cases "fst x"; cases "snd x") (auto simp: list_all_iff wfTag_def)

lemma wfTag_None_mem:
  assumes "list_all wfTag tr" "\<not> isToolEv e"
  shows "(None, e) \<in> set tr \<longleftrightarrow> e \<in> set (map snd tr)"
proof
  assume "(None, e) \<in> set tr" then show "e \<in> set (map snd tr)" by force
next
  assume "e \<in> set (map snd tr)"
  then obtain t where t: "(t, e) \<in> set tr" by auto
  with assms have "t = None" by (cases t) (auto simp: list_all_iff wfTag_def)
  with t show "(None, e) \<in> set tr" by simp
qed

lemma textStart_mem:
  assumes "transformAll E initial cs = (body, Inr s')"
  shows "textStarted s' \<longleftrightarrow> (None, TextStart (textId E)) \<in> set body"
proof -
  have i: "\<not> textStarted initial" by (simp add: initial_def)
  from transformAll_text[OF assms] obtain ds where
    "filter isTextEv (map snd body) =
       (if textStarted initial \<or> ds = [] then [] else [TextStart (textId E)]) @ map (TextDelta (textId E)) ds"
    "textStarted s' = (textStarted initial \<or> ds \<noteq> [])"
    by blast
  with i have
    f: "filter isTextEv (map snd body) = (if ds = [] then [] else [TextStart (textId E)]) @ map (TextDelta (textId E)) ds"
    and s: "textStarted s' = (ds \<noteq> [])"
    by simp_all
  have "TextStart (textId E) \<in> set (map snd body) \<longleftrightarrow> TextStart (textId E) \<in> set (filter isTextEv (map snd body))"
    by simp
  also have "\<dots> \<longleftrightarrow> ds \<noteq> []" unfolding f by auto
  finally show ?thesis
    using s wfTag_None_mem[OF transformAll_wfTag[OF assms], of "TextStart (textId E)"] by simp
qed

lemma reasoningStart_mem:
  assumes "transformAll E initial cs = (body, Inr s')"
  shows "reasoningStarted s' \<longleftrightarrow> (None, ReasoningStart (reasoningId E)) \<in> set body"
proof -
  have i: "\<not> reasoningStarted initial" by (simp add: initial_def)
  from transformAll_reasoning[OF assms] obtain ds where
    "filter isReasoningEv (map snd body) =
       (if reasoningStarted initial \<or> ds = [] then [] else [ReasoningStart (reasoningId E)])
       @ map (ReasoningDelta (reasoningId E)) ds"
    "reasoningStarted s' = (reasoningStarted initial \<or> ds \<noteq> [])"
    by blast
  with i have
    f: "filter isReasoningEv (map snd body) =
          (if ds = [] then [] else [ReasoningStart (reasoningId E)]) @ map (ReasoningDelta (reasoningId E)) ds"
    and s: "reasoningStarted s' = (ds \<noteq> [])"
    by simp_all
  have "ReasoningStart (reasoningId E) \<in> set (map snd body)
        \<longleftrightarrow> ReasoningStart (reasoningId E) \<in> set (filter isReasoningEv (map snd body))"
    by simp
  also have "\<dots> \<longleftrightarrow> ds \<noteq> []" unfolding f by auto
  finally show ?thesis
    using s wfTag_None_mem[OF transformAll_wfTag[OF assms], of "ReasoningStart (reasoningId E)"] by simp
qed

text \<open>
  C4. When the stream closes, \<open>flush\<close> enqueues, after everything the fragments produced
  and before the finish event, one reasoning-end exactly if a reasoning-start was enqueued
  and one text-end exactly if a text-start was enqueued; \<open>transform\<close> itself never enqueues
  an end event, so a channel that was never started gets none, and a stream that
  \<open>transform\<close> errored gets none either.
\<close>

theorem end_events_at_close:
  assumes "pipeThrough E cs = (tr, r)"
  shows "(r \<noteq> None \<longrightarrow> (\<forall>x\<in>set tr. \<not> isEndEv (snd x)))
         \<and> (r = None \<longrightarrow>
              (\<exists>body fr us.
                 fst (transformAll E initial cs) = body
                 \<and> (\<forall>x\<in>set body. \<not> isEndEv (snd x))
                 \<and> tr = body
                      @ untagged ((if (None, ReasoningStart (reasoningId E)) \<in> set body
                                   then [ReasoningEnd (reasoningId E)] else [])
                                  @ (if (None, TextStart (textId E)) \<in> set body
                                     then [TextEnd (textId E)] else [])
                                  @ [Finish fr us])))"
proof (cases r)
  case (Some e)
  with assms have "transformAll E initial cs = (tr, Inl e)" by (simp add: pipeThrough_Some)
  from transformAll_wfTag[OF this] Some show ?thesis by (auto dest: wfTag_notEnd)
next
  case None
  with assms obtain body s' where b: "transformAll E initial cs = (body, Inr s')" and tr: "tr = body @ flush E s'"
    by (auto elim: pipeThrough_None)
  have ne: "\<forall>x\<in>set body. \<not> isEndEv (snd x)"
    using transformAll_wfTag[OF b] by (auto dest: wfTag_notEnd)
  have "tr = body
           @ untagged ((if (None, ReasoningStart (reasoningId E)) \<in> set body
                        then [ReasoningEnd (reasoningId E)] else [])
                       @ (if (None, TextStart (textId E)) \<in> set body
                          then [TextEnd (textId E)] else [])
                       @ [Finish (finishReason s') (usageTotals s')])"
    unfolding tr flush_def textStart_mem[OF b] reasoningStart_mem[OF b] by simp
  with b ne None show ?thesis by auto
qed

theorem end_events_at_close_witness:
  "pipeThrough sampleEnv
     [sampleChunk (Some (noDelta\<lparr>content := Some ''Hello''\<rparr>)) Null None,
      sampleChunk (Some noDelta) (Val ''stop'') None]
   = ([(None, StreamStart [WarnOther ''Streaming is still experimental for Sarvam'']),
       (None, ResponseMetadata \<lparr>md_id = Some ''chatcmpl-1'', md_modelId = Some ''sarvam-m'',
                                md_timestamp = Some 1702657020000\<rparr>),
       (None, TextStart ''txt-0''),
       (None, TextDelta ''txt-0'' ''Hello''),
       (None, TextEnd ''txt-0''),
       (None, Finish \<lparr>unified = Stop, raw = Some ''stop''\<rparr> (usageTotals initial))], None)
   \<and> (\<exists>fr us.
         [(None :: int option, StreamStart [WarnOther ''Streaming is still experimental for Sarvam'']),
          (None, ResponseMetadata \<lparr>md_id = Some ''chatcmpl-1'', md_modelId = Some ''sarvam-m'',
                                   md_timestamp = Some 1702657020000\<rparr>),
          (None, TextStart ''txt-0''),
          (None, TextDelta ''txt-0'' ''Hello''),
          (None, TextEnd ''txt-0''),
          (None, Finish \<lparr>unified = Stop, raw = Some ''stop''\<rparr> (usageTotals initial))]
         = fst (transformAll sampleEnv initial
                  [sampleChunk (Some (noDelta\<lparr>content := Some ''Hello''\<rparr>)) Null None,
                   sampleChunk (Some noDelta) (Val ''stop'') None])
           @ [(None, TextEnd ''txt-0''), (None, Finish fr us)])"
  (is "?run \<and> ?concl")
proof -
  have run: ?run by (simp add: run_defs)
  have body: "fst (transformAll sampleEnv initial
                  [sampleChunk (Some (noDelta\<lparr>content := Some ''Hello''\<rparr>)) Null None,
                   sampleChunk (Some noDelta) (Val ''stop'') None])
     = [(None, StreamStart [WarnOther ''Streaming is still experimental for Sarvam'']),
       (None, ResponseMetadata \<lparr>md_id = Some ''chatcmpl-1'', md_modelId = Some ''sarvam-m'',
                                md_timestamp = Some 1702657020000\<rparr>),
       (None, TextStart ''txt-0''),
       (None, TextDelta ''txt-0'' ''Hello'')]"
    by (simp add: run_defs)
  have c: ?concl
    using end_events_at_close [OF run] unfolding body
    by (simp add: untagged_def sampleEnv_def)
  show ?thesis using run c by (intro conjI) assumption+
qed

section \<open>Stream accumulator: a first fragment of a tool call that is incomplete\<close>

lemma toolCallsLoop_toolEv:
  "toolCallsLoop E tcs ds = (evs, r) \<Longrightarrow> list_all (\<lambda>x. isToolEv (snd x) \<and> fst x \<noteq> None) evs"
proof (induction ds arbitrary: tcs evs r)
  case Nil then show ?case by simp
next
  case (Cons d ds)
  obtain ev1 r1 where step: "toolCallStep E tcs d = (ev1, r1)" by (cases "toolCallStep E tcs d")
  have w1: "list_all (\<lambda>x. isToolEv (snd x) \<and> fst x \<noteq> None) (map (Pair (Some (tcd_index d))) ev1)"
    using toolCallStep_toolEv[OF step] by (simp add: list_all_iff)
  show ?case
  proof (cases r1)
    case (Inl e)
    with step Cons.prems w1 show ?thesis by auto
  next
    case (Inr tcs1)
    obtain ev2 r2 where rest: "toolCallsLoop E tcs1 ds = (ev2, r2)" by (cases "toolCallsLoop E tcs1 ds")
    from Cons.IH[OF rest] step Inr rest Cons.prems w1 show ?thesis by auto
  qed
qed

lemma jsonText_empty: "\<not> jsonText []"
  by code_simp

lemma jsonText_braces: "jsonText ''{}''"
  by code_simp

lemma jsonText_open: "\<not> jsonText ''{''"
  by code_simp

text \<open>
  C9. When a tool-call delta refers to an index with no entry yet and its type is not
  \<open>function\<close>, or its id is missing, or its function name is missing, \<open>transform\<close> throws an
  \<open>InvalidResponseDataError\<close> for that delta: what was enqueued before it stays, no error
  event is enqueued, nothing more of the fragment is processed, and no later fragment is.
\<close>

theorem new_index_invalid_throws:
  assumes "chunkDelta (Value v) = Some dl" and "tool_calls dl = Some (before @ d # after)"
    and "toolCallsLoop E (toolCalls s) before = (evb, Inr tcs)"
    and "tcs (tcd_index d) = None"
    and "tcd_type d \<noteq> Some ''function'' \<or> tcd_id d = None \<or> tcd_name d = None"
  shows "\<exists>ev0 msg.
           transform E s (Value v) = (untagged ev0 @ evb, Inl (InvalidResponseDataError d msg))
           \<and> (\<forall>x\<in>set (untagged ev0 @ evb). \<forall>e. snd x \<noteq> ErrorEvent e)
           \<and> (\<forall>cs. transformAll E s (Value v # cs)
                       = (untagged ev0 @ evb, Inl (InvalidResponseDataError d msg)))"
proof -
  from toolCallStep_invalid[of tcs d E] assms(4,5) obtain msg where
    step: "toolCallStep E tcs d = ([], Inl (InvalidResponseDataError d msg))" by blast
  have loop: "toolCallsLoop E (toolCalls s) (before @ d # after) = (evb, Inl (InvalidResponseDataError d msg))"
    using assms(3) step by (simp add: toolCallsLoop_append)
  obtain evs r where t: "transform E s (Value v) = (evs, r)" by (cases "transform E s (Value v)")
  from t have "\<exists>ev0. evs = untagged ev0 @ evb \<and> r = Inl (InvalidResponseDataError d msg)
       \<and> list_all isPlainEv ev0 \<and> (\<forall>e. ErrorEvent e \<notin> set ev0)"
  proof (cases rule: transform_Value_cases)
    case NoDelta
    with assms(1) show ?thesis by simp
  next
    case (NoTools d' ev2 s4 ev3 s5)
    with assms(1,2) show ?thesis by simp
  next
    case (Threw d' ev2 s4 ev3 s5 tds ev4 e)
    have "toolCalls s5 = toolCalls s"
      using reasoningStep_fields(2)[OF Threw(3)] textStep_fields(2)[OF Threw(4)]
      by (simp add: beforeDelta_fields)
    with Threw assms(1,2) loop have "ev4 = evb" "e = InvalidResponseDataError d msg" by simp_all
    moreover have "\<forall>e. ErrorEvent e \<notin> set (firstChunkEvents E s v @ ev2 @ ev3)"
      using Threw(3,4)
      by (auto simp: firstChunkEvents_def reasoningStep_def textStep_def split: option.splits if_splits)
    moreover have "list_all isPlainEv (firstChunkEvents E s v @ ev2 @ ev3)"
      using reasoningStep_plain[OF Threw(3)] textStep_plain[OF Threw(4)] by (simp add: firstChunk_plain)
    ultimately show ?thesis using Threw(6,7) by blast
  next
    case (Tools d' ev2 s4 ev3 s5 tds ev4 tcs')
    have "toolCalls s5 = toolCalls s"
      using reasoningStep_fields(2)[OF Tools(3)] textStep_fields(2)[OF Tools(4)]
      by (simp add: beforeDelta_fields)
    with Tools assms(1,2) loop show ?thesis by simp
  qed
  then obtain ev0 where ev0: "evs = untagged ev0 @ evb" "r = Inl (InvalidResponseDataError d msg)"
    "\<forall>e. ErrorEvent e \<notin> set ev0" by blast
  have noerr: "\<forall>x\<in>set (untagged ev0 @ evb). \<forall>e. snd x \<noteq> ErrorEvent e"
  proof (intro ballI allI)
    fix x e assume x: "x \<in> set (untagged ev0 @ evb)"
    show "snd x \<noteq> ErrorEvent e"
    proof
      assume e: "snd x = ErrorEvent e"
      from x consider "x \<in> set (untagged ev0)" | "x \<in> set evb" by auto
      then show False
      proof cases
        case 1
        with e ev0(3) show False by (auto simp: untagged_def)
      next
        case 2
        from toolCallsLoop_toolEv[OF assms(3)] 2 e show False
          by (auto simp: list_all_iff)
      qed
    qed
  qed
  from t ev0 have "\<forall>cs. transformAll E s (Value v # cs)
                       = (untagged ev0 @ evb, Inl (InvalidResponseDataError d msg))" by simp
  with t ev0 noerr show ?thesis by blast
qed

theorem new_index_invalid_throws_witness:
  "chunkDelta (Value \<lparr>cv_id = Some ''chatcmpl-1'', cv_created = None, cv_model = None,
        choices = [\<lparr>delta = Some \<lparr>content = Some ''Hi'', reasoning = None,
                      tool_calls = Some ([toolDelta 0 (Some ''call_1'') (Some ''f'') None]
                                         @ toolDelta 1 None (Some ''g'') (Some ''{}'') # [])\<rparr>,
                    finish_reason = Null\<rparr>],
        x_sarvam = None\<rparr>)
     = Some \<lparr>content = Some ''Hi'', reasoning = None,
             tool_calls = Some ([toolDelta 0 (Some ''call_1'') (Some ''f'') None]
                                @ toolDelta 1 None (Some ''g'') (Some ''{}'') # [])\<rparr>
   \<and> fst (toolCallsLoop sampleEnv (toolCalls initial) [toolDelta 0 (Some ''call_1'') (Some ''f'') None])
       = [(Some 0, ToolInputStart ''call_1'' ''f'')]
   \<and> tcd_id (toolDelta 1 None (Some ''g'') (Some ''{}'')) = None
   \<and> (\<exists>ev0 msg.
         transformAll sampleEnv initial
           [Value \<lparr>cv_id = Some ''chatcmpl-1'', cv_created = None, cv_model = None,
              choices = [\<lparr>delta = Some \<lparr>content = Some ''Hi'', reasoning = None,
                            tool_calls = Some ([toolDelta 0 (Some ''call_1'') (Some ''f'') None]
                                               @ toolDelta 1 None (Some ''g'') (Some ''{}'') # [])\<rparr>,
                          finish_reason = Null\<rparr>],
              x_sarvam = None\<rparr>,
            sampleChunk (Some (noDelta\<lparr>content := Some ''more''\<rparr>)) (Val ''stop'') None]
         = (untagged ev0 @ [(Some 0, ToolInputStart ''call_1'' ''f'')],
            Inl (InvalidResponseDataError (toolDelta 1 None (Some ''g'') (Some ''{}'')) msg)))"
  (is "?h1 \<and> ?h3 \<and> ?h5 \<and> ?concl")
proof -
  let ?da = "toolDelta 0 (Some ''call_1'') (Some ''f'') None"
  let ?d = "toolDelta 1 None (Some ''g'') (Some ''{}'')"
  have h1: ?h1 by (simp add: chunkDelta_def firstChoice_def)
  have h2: "tool_calls \<lparr>content = Some ''Hi'', reasoning = None,
             tool_calls = Some ([?da] @ ?d # [])\<rparr> = Some ([?da] @ ?d # [])" by simp
  have "\<exists>tcs. toolCallsLoop sampleEnv (toolCalls initial) [?da]
           = ([(Some 0, ToolInputStart ''call_1'' ''f'')], Inr tcs) \<and> tcs (tcd_index ?d) = None"
    by (simp add: toolDelta_def toolCallStep_def initial_def sampleEnv_def Let_def jsonText_empty)
  then obtain tcs where loop: "toolCallsLoop sampleEnv (toolCalls initial) [?da]
           = ([(Some 0, ToolInputStart ''call_1'' ''f'')], Inr tcs)"
    and h4: "tcs (tcd_index ?d) = None" by blast
  have h3: ?h3 using loop by simp
  have h5: ?h5 by (simp add: toolDelta_def)
  have h5': "tcd_type ?d \<noteq> Some ''function'' \<or> tcd_id ?d = None \<or> tcd_name ?d = None"
    using h5 by simp
  have c: ?concl
    using new_index_invalid_throws [OF h1 h2 loop h4 h5'] by blast
  show ?thesis using h1 h3 h5 c by (intro conjI) assumption+
qed

section \<open>Stream accumulator: start events\<close>

lemma toolEvents_Cons [simp]:
  "toolEvents i ((t, e) # xs) = (if t = Some i then e # toolEvents i xs else toolEvents i xs)"
  by (simp add: toolEvents_def)

lemma head_in_prefix: "xs @ y # zs = a # rest \<Longrightarrow> y \<noteq> a \<Longrightarrow> a \<in> set xs"
  by (cases xs) auto

lemma last_unique:
  assumes "xs @ y # zs = ws @ [y']" "y \<notin> set ws"
  shows "zs = [] \<and> xs = ws \<and> y = y'"
proof (cases zs rule: rev_cases)
  case Nil
  with assms(1) show ?thesis by simp
next
  case (snoc zs' z)
  with assms(1) have "(xs @ y # zs') @ [z] = ws @ [y']" by simp
  then have "xs @ y # zs' = ws" by (simp only: append1_eq_conv)
  with assms(2) show ?thesis by auto
qed

lemma pipeThrough_tags:
  assumes "pipeThrough E cs = (tr, r)" "(t, e) \<in> set tr"
  shows "(t = None) = (\<not> isToolEv e)"
proof -
  obtain body r0 where b: "transformAll E initial cs = (body, r0)" by (cases "transformAll E initial cs")
  have w: "list_all wfTag body" by (rule transformAll_wfTag[OF b])
  have inbody: "(t, e) \<in> set body \<Longrightarrow> (t = None) = (\<not> isToolEv e)"
    using w by (cases t; cases e) (auto simp: list_all_iff wfTag_def)
  show ?thesis
  proof (cases r0)
    case (Inl err)
    with b assms have "tr = body" by (simp add: pipeThrough_def)
    with assms(2) inbody show ?thesis by simp
  next
    case (Inr s')
    with b assms have "tr = body @ flush E s'" by (simp add: pipeThrough_def)
    with assms(2) consider "(t, e) \<in> set body" | "(t, e) \<in> set (flush E s')" by auto
    then show ?thesis
    proof cases
      case 1 with inbody show ?thesis by simp
    next
      case 2 then show ?thesis by (auto simp: flush_def untagged_def split: if_splits)
    qed
  qed
qed

lemma pipeThrough_text:
  assumes "pipeThrough E cs = (tr, r)"
  shows "\<exists>ds. filter isTextEv (map snd tr) =
            (if ds = [] then [] else [TextStart (textId E)]) @ map (TextDelta (textId E)) ds"
proof -
  obtain body r0 where b: "transformAll E initial cs = (body, r0)" by (cases "transformAll E initial cs")
  have i: "\<not> textStarted initial" by (simp add: initial_def)
  from transformAll_text[OF b] obtain ds where
    "filter isTextEv (map snd body) =
       (if textStarted initial \<or> ds = [] then [] else [TextStart (textId E)]) @ map (TextDelta (textId E)) ds"
    by blast
  with i have f: "filter isTextEv (map snd body) =
       (if ds = [] then [] else [TextStart (textId E)]) @ map (TextDelta (textId E)) ds" by simp
  have "filter isTextEv (map snd tr) = filter isTextEv (map snd body)"
    using b assms by (cases r0) (auto simp: pipeThrough_def flush_def)
  with f show ?thesis by auto
qed

lemma pipeThrough_reasoning:
  assumes "pipeThrough E cs = (tr, r)"
  shows "\<exists>ds. filter isReasoningEv (map snd tr) =
            (if ds = [] then [] else [ReasoningStart (reasoningId E)]) @ map (ReasoningDelta (reasoningId E)) ds"
proof -
  obtain body r0 where b: "transformAll E initial cs = (body, r0)" by (cases "transformAll E initial cs")
  have i: "\<not> reasoningStarted initial" by (simp add: initial_def)
  from transformAll_reasoning[OF b] obtain ds where
    "filter isReasoningEv (map snd body) =
       (if reasoningStarted initial \<or> ds = [] then [] else [ReasoningStart (reasoningId E)])
       @ map (ReasoningDelta (reasoningId E)) ds"
    by blast
  with i have f: "filter isReasoningEv (map snd body) =
       (if ds = [] then [] else [ReasoningStart (reasoningId E)]) @ map (ReasoningDelta (reasoningId E)) ds"
    by simp
  have "filter isReasoningEv (map snd tr) = filter isReasoningEv (map snd body)"
    using b assms by (cases r0) (auto simp: pipeThrough_def flush_def)
  with f show ?thesis by auto
qed

lemma filter_textStart: "filter isTextStart (filter isTextEv xs) = filter isTextStart xs"
proof -
  have "\<And>e. (isTextEv e \<and> isTextStart e) = isTextStart e" by (case_tac e) simp_all
  then show ?thesis by simp
qed

lemma filter_reasoningStart: "filter isReasoningStart (filter isReasoningEv xs) = filter isReasoningStart xs"
proof -
  have "\<And>e. (isReasoningEv e \<and> isReasoningStart e) = isReasoningStart e" by (case_tac e) simp_all
  then show ?thesis by simp
qed

lemma text_start_once:
  assumes "pipeThrough E cs = (tr, r)"
  shows "length (filter isTextStart (map snd tr)) \<le> 1"
proof -
  from pipeThrough_text[OF assms] obtain ds where
    f: "filter isTextEv (map snd tr) =
            (if ds = [] then [] else [TextStart (textId E)]) @ map (TextDelta (textId E)) ds" by blast
  have "filter isTextStart (map (TextDelta (textId E)) ds) = []" by (induction ds) simp_all
  then have "length (filter isTextStart (filter isTextEv (map snd tr))) \<le> 1" unfolding f by simp
  then show ?thesis by (simp only: filter_textStart)
qed

lemma reasoning_start_once:
  assumes "pipeThrough E cs = (tr, r)"
  shows "length (filter isReasoningStart (map snd tr)) \<le> 1"
proof -
  from pipeThrough_reasoning[OF assms] obtain ds where
    f: "filter isReasoningEv (map snd tr) =
            (if ds = [] then [] else [ReasoningStart (reasoningId E)]) @ map (ReasoningDelta (reasoningId E)) ds"
    by blast
  have "filter isReasoningStart (map (ReasoningDelta (reasoningId E)) ds) = []" by (induction ds) simp_all
  then have "length (filter isReasoningStart (filter isReasoningEv (map snd tr))) \<le> 1" unfolding f by simp
  then show ?thesis by (simp only: filter_reasoningStart)
qed

lemma text_start_first:
  assumes run: "pipeThrough E cs = (tr, r)" and tr: "tr = pre @ (t, TextDelta c d) # post"
  shows "(None, TextStart (textId E)) \<in> set pre"
proof -
  from pipeThrough_text[OF run] obtain ds where
    f: "filter isTextEv (map snd tr) =
            (if ds = [] then [] else [TextStart (textId E)]) @ map (TextDelta (textId E)) ds" by blast
  have split: "filter isTextEv (map snd tr)
       = filter isTextEv (map snd pre) @ TextDelta c d # filter isTextEv (map snd post)"
    unfolding tr by simp
  have "ds \<noteq> []" using f split by auto
  with f split have "filter isTextEv (map snd pre) @ TextDelta c d # filter isTextEv (map snd post)
       = TextStart (textId E) # map (TextDelta (textId E)) ds" by simp
  from head_in_prefix[OF this] have "TextStart (textId E) \<in> set (filter isTextEv (map snd pre))" by simp
  then obtain t' where m: "(t', TextStart (textId E)) \<in> set pre" by auto
  then have "(t', TextStart (textId E)) \<in> set tr" unfolding tr by simp
  from pipeThrough_tags[OF run this] have "t' = None" by simp
  with m show ?thesis by simp
qed

lemma reasoning_start_first:
  assumes run: "pipeThrough E cs = (tr, r)" and tr: "tr = pre @ (t, ReasoningDelta c d) # post"
  shows "(None, ReasoningStart (reasoningId E)) \<in> set pre"
proof -
  from pipeThrough_reasoning[OF run] obtain ds where
    f: "filter isReasoningEv (map snd tr) =
            (if ds = [] then [] else [ReasoningStart (reasoningId E)]) @ map (ReasoningDelta (reasoningId E)) ds"
    by blast
  have split: "filter isReasoningEv (map snd tr)
       = filter isReasoningEv (map snd pre) @ ReasoningDelta c d # filter isReasoningEv (map snd post)"
    unfolding tr by simp
  have "ds \<noteq> []" using f split by auto
  with f split have "filter isReasoningEv (map snd pre) @ ReasoningDelta c d # filter isReasoningEv (map snd post)
       = ReasoningStart (reasoningId E) # map (ReasoningDelta (reasoningId E)) ds" by simp
  from head_in_prefix[OF this] have "ReasoningStart (reasoningId E) \<in> set (filter isReasoningEv (map snd pre))"
    by simp
  then obtain t' where m: "(t', ReasoningStart (reasoningId E)) \<in> set pre" by auto
  then have "(t', ReasoningStart (reasoningId E)) \<in> set tr" unfolding tr by simp
  from pipeThrough_tags[OF run this] have "t' = None" by simp
  with m show ?thesis by simp
qed

lemma toolShape_Some:
  assumes "toolShape E st es" "es \<noteq> []"
  shows "\<exists>tc ds. st = Some tc
    \<and> es = ToolInputStart (tc_id tc) (tc_name tc) # map (ToolInputDelta (tc_id tc)) ds
          @ (if hasFinished tc
             then [ToolInputEnd (tc_id tc), ToolCall (tc_id tc) (tc_name tc) (tc_arguments tc)]
             else [])
    \<and> concat ds = tc_arguments tc \<and> (hasFinished tc \<longrightarrow> isParsableJson E (tc_arguments tc))"
  using assms by (cases st) (auto simp: toolShape_def)

lemma tool_start_once:
  assumes "pipeThrough E cs = (tr, r)"
  shows "length (filter isToolInputStart (toolEvents i tr)) \<le> 1"
proof (cases "toolEvents i tr = []")
  case True then show ?thesis by simp
next
  case False
  from pipeThrough_shape[OF assms, of i] obtain st where "toolShape E st (toolEvents i tr)" by blast
  from toolShape_Some[OF this False] obtain tc :: tool_call_state and ds where
    es: "toolEvents i tr = ToolInputStart (tc_id tc) (tc_name tc) # map (ToolInputDelta (tc_id tc)) ds
          @ (if hasFinished tc
             then [ToolInputEnd (tc_id tc), ToolCall (tc_id tc) (tc_name tc) (tc_arguments tc)]
             else [])"
    by blast
  have "filter isToolInputStart (map (ToolInputDelta (tc_id tc)) ds) = []" by (induction ds) simp_all
  then show ?thesis unfolding es by simp
qed

lemma tool_start_first:
  assumes run: "pipeThrough E cs = (tr, r)" and tr: "tr = pre @ (t, ToolInputDelta c d) # post"
  shows "\<exists>i n. t = Some i \<and> (Some i, ToolInputStart c n) \<in> set pre"
proof -
  have "(t, ToolInputDelta c d) \<in> set tr" unfolding tr by simp
  from pipeThrough_tags[OF run this] obtain i where t: "t = Some i" by (cases t) auto
  have split: "toolEvents i tr = toolEvents i pre @ ToolInputDelta c d # toolEvents i post"
    unfolding tr t by simp
  then have ne: "toolEvents i tr \<noteq> []" by simp
  from pipeThrough_shape[OF run, of i] obtain st where "toolShape E st (toolEvents i tr)" by blast
  from toolShape_Some[OF this ne] obtain tc :: tool_call_state and ds where
    es: "toolEvents i tr = ToolInputStart (tc_id tc) (tc_name tc) # map (ToolInputDelta (tc_id tc)) ds
          @ (if hasFinished tc
             then [ToolInputEnd (tc_id tc), ToolCall (tc_id tc) (tc_name tc) (tc_arguments tc)]
             else [])"
    by blast
  have "ToolInputDelta c d \<in> set (toolEvents i tr)" unfolding split by simp
  then have c: "c = tc_id tc" unfolding es by (auto split: if_splits)
  from es split have "toolEvents i pre @ ToolInputDelta c d # toolEvents i post
     = ToolInputStart (tc_id tc) (tc_name tc) # (map (ToolInputDelta (tc_id tc)) ds
          @ (if hasFinished tc
             then [ToolInputEnd (tc_id tc), ToolCall (tc_id tc) (tc_name tc) (tc_arguments tc)]
             else []))" by simp
  from head_in_prefix[OF this] have "ToolInputStart (tc_id tc) (tc_name tc) \<in> set (toolEvents i pre)" by simp
  then have "(Some i, ToolInputStart c (tc_name tc)) \<in> set pre"
    unfolding c by (auto simp: toolEvents_def)
  with t show ?thesis by blast
qed

text \<open>
  C3. Whatever the fragments, at most one text-start, at most one reasoning-start and, for
  each tool-call index, at most one tool-input-start is enqueued; every text delta comes
  after the text-start, every reasoning delta after the reasoning-start, and every
  tool-input delta is enqueued for an index and comes after the tool-input-start of that
  index, which carries the same call id.
\<close>

theorem start_precedes_deltas:
  assumes "pipeThrough E cs = (tr, r)"
  shows "length (filter isTextStart (map snd tr)) \<le> 1
         \<and> length (filter isReasoningStart (map snd tr)) \<le> 1
         \<and> (\<forall>i. length (filter isToolInputStart (toolEvents i tr)) \<le> 1)
         \<and> (\<forall>pre t c d post. tr = pre @ (t, TextDelta c d) # post
               \<longrightarrow> (None, TextStart (textId E)) \<in> set pre)
         \<and> (\<forall>pre t c d post. tr = pre @ (t, ReasoningDelta c d) # post
               \<longrightarrow> (None, ReasoningStart (reasoningId E)) \<in> set pre)
         \<and> (\<forall>pre t c d post. tr = pre @ (t, ToolInputDelta c d) # post
               \<longrightarrow> (\<exists>i n. t = Some i \<and> (Some i, ToolInputStart c n) \<in> set pre))"
  using text_start_once[OF assms] reasoning_start_once[OF assms] tool_start_once[OF assms]
    text_start_first[OF assms] reasoning_start_first[OF assms] tool_start_first[OF assms]
  by blast

theorem start_precedes_deltas_witness:
  "pipeThrough sampleEnv
     [sampleChunk (Some (noDelta\<lparr>reasoning := Some ''think''\<rparr>)) Null None,
      sampleChunk (Some (noDelta\<lparr>content := Some ''Hi''\<rparr>)) Null None,
      sampleChunk (Some (noDelta\<lparr>tool_calls := Some [toolDelta 0 (Some ''call_1'') (Some ''f'') (Some ''{'')]\<rparr>))
        Null None,
      sampleChunk (Some (noDelta\<lparr>tool_calls := Some [toolDelta 0 None None (Some ''}'')]\<rparr>))
        (Val ''tool_calls'') None]
   = ([(None, StreamStart [WarnOther ''Streaming is still experimental for Sarvam'']),
       (None, ResponseMetadata \<lparr>md_id = Some ''chatcmpl-1'', md_modelId = Some ''sarvam-m'',
                                md_timestamp = Some 1702657020000\<rparr>),
       (None, ReasoningStart ''rsn-0''),
       (None, ReasoningDelta ''rsn-0'' ''think''),
       (None, TextStart ''txt-0''),
       (None, TextDelta ''txt-0'' ''Hi''),
       (Some 0, ToolInputStart ''call_1'' ''f''),
       (Some 0, ToolInputDelta ''call_1'' ''{''),
       (Some 0, ToolInputDelta ''call_1'' ''}''),
       (Some 0, ToolInputEnd ''call_1''),
       (Some 0, ToolCall ''call_1'' ''f'' ''{}''),
       (None, ReasoningEnd ''rsn-0''),
       (None, TextEnd ''txt-0''),
       (None, Finish \<lparr>unified = ToolCalls, raw = Some ''tool_calls''\<rparr> (usageTotals initial))], None)
   \<and> length (filter isToolInputStart (toolEvents 0 (fst (pipeThrough sampleEnv
     [sampleChunk (Some (noDelta\<lparr>reasoning := Some ''think''\<rparr>)) Null None,
      sampleChunk (Some (noDelta\<lparr>content := Some ''Hi''\<rparr>)) Null None,
      sampleChunk (Some (noDelta\<lparr>tool_calls := Some [toolDelta 0 (Some ''call_1'') (Some ''f'') (Some ''{'')]\<rparr>))
        Null None,
      sampleChunk (Some (noDelta\<lparr>tool_calls := Some [toolDelta 0 None None (Some ''}'')]\<rparr>))
        (Val ''tool_calls'') None])))) \<le> 1
   \<and> (\<exists>i n. (Some i, ToolInputStart ''call_1'' n) \<in> set (take 8 (fst (pipeThrough sampleEnv
     [sampleChunk (Some (noDelta\<lparr>reasoning := Some ''think''\<rparr>)) Null None,
      sampleChunk (Some (noDelta\<lparr>content := Some ''Hi''\<rparr>)) Null None,
      sampleChunk (Some (noDelta\<lparr>tool_calls := Some [toolDelta 0 (Some ''call_1'') (Some ''f'') (Some ''{'')]\<rparr>))
        Null None,
      sampleChunk (Some (noDelta\<lparr>tool_calls := Some [toolDelta 0 None None (Some ''}'')]\<rparr>))
        (Val ''tool_calls'') None]))))"
  (is "?run \<and> ?once \<and> ?first")
proof -
  let ?cs = "[sampleChunk (Some (noDelta\<lparr>reasoning := Some ''think''\<rparr>)) Null None,
      sampleChunk (Some (noDelta\<lparr>content := Some ''Hi''\<rparr>)) Null None,
      sampleChunk (Some (noDelta\<lparr>tool_calls := Some [toolDelta 0 (Some ''call_1'') (Some ''f'') (Some ''{'')]\<rparr>))
        Null None,
      sampleChunk (Some (noDelta\<lparr>tool_calls := Some [toolDelta 0 None None (Some ''}'')]\<rparr>))
        (Val ''tool_calls'') None]"
  let ?tr = "fst (pipeThrough sampleEnv ?cs)"
  have run: ?run by (simp add: run_defs jsonText_open jsonText_braces)
  have run': "pipeThrough sampleEnv ?cs = (?tr, None)" by (simp add: run)
  note T = start_precedes_deltas [OF run']
  have once: ?once using T by blast
  have split: "?tr = take 8 ?tr @ (Some 0, ToolInputDelta ''call_1'' ''}'') # drop 9 ?tr"
    by (simp add: run)
  have "\<forall>pre t c d post. ?tr = pre @ (t, ToolInputDelta c d) # post
               \<longrightarrow> (\<exists>i n. t = Some i \<and> (Some i, ToolInputStart c n) \<in> set pre)"
    using T by blast
  with split have first: ?first by blast
  show ?thesis using run once first by (intro conjI) assumption+
qed

section \<open>Stream accumulator: the finalization of a tool call\<close>

lemma endBeforeCall_append:
  assumes "endBeforeCall xs" "endBeforeCall ys"
  shows "endBeforeCall (xs @ ys)"
  unfolding endBeforeCall_def
proof (intro allI impI)
  fix pre t c n inp post
  assume eq: "xs @ ys = pre @ (t, ToolCall c n inp) # post"
  then consider us where "xs = pre @ us" "us @ ys = (t, ToolCall c n inp) # post"
    | us where "xs @ us = pre" "ys = us @ (t, ToolCall c n inp) # post"
    by (auto simp: append_eq_append_conv2)
  then show "\<exists>pre'. pre = pre' @ [(t, ToolInputEnd c)]"
  proof cases
    case 1
    show ?thesis
    proof (cases us)
      case Nil
      with 1 have "ys = [] @ (t, ToolCall c n inp) # post" by simp
      with assms(2) have "\<exists>pre'. ([]::tagged list) = pre' @ [(t, ToolInputEnd c)]"
        unfolding endBeforeCall_def by blast
      then show ?thesis by simp
    next
      case (Cons u us')
      with 1 have "xs = pre @ (t, ToolCall c n inp) # us'" by simp
      with assms(1) show ?thesis unfolding endBeforeCall_def by blast
    qed
  next
    case 2
    from assms(2) 2(2) obtain pre' where "us = pre' @ [(t, ToolInputEnd c)]"
      unfolding endBeforeCall_def by blast
    with 2(1) have "pre = (xs @ pre') @ [(t, ToolInputEnd c)]" by simp
    then show ?thesis by blast
  qed
qed

lemma endBeforeCall_noCall:
  assumes "\<forall>x\<in>set xs. \<not> isToolCall (snd x)"
  shows "endBeforeCall xs"
  unfolding endBeforeCall_def
proof (intro allI impI)
  fix pre t c n inp post
  assume "xs = pre @ (t, ToolCall c n inp) # post"
  then have "(t, ToolCall c n inp) \<in> set xs" by simp
  with assms show "\<exists>pre'. pre = pre' @ [(t, ToolInputEnd c)]" by force
qed

lemma endBeforeCall_pair: "endBeforeCall [(t, ToolInputEnd c), (t, ToolCall c n a)]"
  unfolding endBeforeCall_def
  by (auto simp: Cons_eq_append_conv)

lemma toolCallStep_endBeforeCall:
  assumes "toolCallStep E tcs d = (evs, r)"
  shows "endBeforeCall (map (Pair t) evs)"
proof -
  have "\<exists>front. list_all (\<lambda>e. \<not> isToolCall e) front
          \<and> (evs = front \<or> (\<exists>c n a. evs = front @ [ToolInputEnd c, ToolCall c n a]))"
  proof (cases "tcs (tcd_index d)")
    case None
    show ?thesis
    proof (cases "tcd_type d = Some ''function'' \<and> tcd_id d \<noteq> None \<and> tcd_name d \<noteq> None")
      case False
      with toolCallStep_invalid[of tcs d E] None assms have "evs = []" by auto
      then show ?thesis by (intro exI[of _ "[]"]) simp
    next
      case True
      then obtain c n where cn: "tcd_id d = Some c" "tcd_name d = Some n" by auto
      from toolCallStep_new[of tcs d c n E] None True cn assms
      have "evs = (ToolInputStart c n # (if fragment d = [] then [] else [ToolInputDelta c (fragment d)]))
        @ (if isParsableJson E (fragment d) then [ToolInputEnd c, ToolCall c n (fragment d)] else [])"
        by simp
      then show ?thesis
        by (intro exI[of _ "ToolInputStart c n # (if fragment d = [] then [] else [ToolInputDelta c (fragment d)])"])
           auto
    qed
  next
    case (Some tc)
    show ?thesis
    proof (cases "hasFinished tc")
      case True
      with toolCallStep_finished[of tcs d tc E] Some assms have "evs = []" by simp
      then show ?thesis by (intro exI[of _ "[]"]) simp
    next
      case False
      from toolCallStep_open[of tcs d tc E] Some False assms
      have "evs = [ToolInputDelta (tc_id tc) (fragment d)]
        @ (if isParsableJson E (tc_arguments tc @ fragment d)
           then [ToolInputEnd (tc_id tc), ToolCall (tc_id tc) (tc_name tc) (tc_arguments tc @ fragment d)]
           else [])" by simp
      then show ?thesis
        by (intro exI[of _ "[ToolInputDelta (tc_id tc) (fragment d)]"]) auto
    qed
  qed
  then obtain front where fr: "list_all (\<lambda>e. \<not> isToolCall e) front"
    and ev: "evs = front \<or> (\<exists>c n a. evs = front @ [ToolInputEnd c, ToolCall c n a])" by blast
  have f: "endBeforeCall (map (Pair t) front)"
    using fr by (intro endBeforeCall_noCall) (auto simp: list_all_iff)
  from ev show ?thesis
  proof
    assume "evs = front" with f show ?thesis by simp
  next
    assume "\<exists>c n a. evs = front @ [ToolInputEnd c, ToolCall c n a]"
    then obtain c n a where "evs = front @ [ToolInputEnd c, ToolCall c n a]" by blast
    then have "map (Pair t) evs = map (Pair t) front @ [(t, ToolInputEnd c), (t, ToolCall c n a)]" by simp
    with endBeforeCall_append[OF f endBeforeCall_pair[of t c n a]] show ?thesis by simp
  qed
qed

lemma toolCallsLoop_endBeforeCall:
  "toolCallsLoop E tcs ds = (evs, r) \<Longrightarrow> endBeforeCall evs"
proof (induction ds arbitrary: tcs evs r)
  case Nil
  then show ?case by (simp add: endBeforeCall_noCall)
next
  case (Cons d ds)
  obtain ev1 r1 where step: "toolCallStep E tcs d = (ev1, r1)" by (cases "toolCallStep E tcs d")
  note e1 = toolCallStep_endBeforeCall[OF step, of "Some (tcd_index d)"]
  show ?case
  proof (cases r1)
    case (Inl e)
    with step Cons.prems e1 show ?thesis by simp
  next
    case (Inr tcs1)
    obtain ev2 r2 where rest: "toolCallsLoop E tcs1 ds = (ev2, r2)" by (cases "toolCallsLoop E tcs1 ds")
    from step Inr rest Cons.prems have "evs = map (Pair (Some (tcd_index d))) ev1 @ ev2" by simp
    with endBeforeCall_append[OF e1 Cons.IH[OF rest]] show ?thesis by simp
  qed
qed

lemma untagged_endBeforeCall: "list_all isPlainEv evs \<Longrightarrow> endBeforeCall (untagged evs)"
proof (rule endBeforeCall_noCall, rule ballI)
  fix x assume p: "list_all isPlainEv evs" and x: "x \<in> set (untagged evs)"
  then have "isPlainEv (snd x)" by (auto simp: untagged_def list_all_iff)
  then show "\<not> isToolCall (snd x)" by (cases "snd x") simp_all
qed

lemma transform_endBeforeCall:
  assumes "transform E s c = (evs, r)"
  shows "endBeforeCall evs"
proof (cases c)
  case (ParseFailure e)
  with assms have "evs = untagged [ErrorEvent e]" by (simp add: transform_bad)
  then show ?thesis by (simp add: untagged_endBeforeCall)
next
  case (ErrorData e)
  with assms have "evs = untagged [ErrorEvent e]" by (simp add: transform_bad)
  then show ?thesis by (simp add: untagged_endBeforeCall)
next
  case (Value v)
  with assms have t: "transform E s (Value v) = (evs, r)" by simp
  from t show ?thesis
  proof (cases rule: transform_Value_cases)
    case NoDelta
    then show ?thesis by (simp add: untagged_endBeforeCall firstChunk_plain)
  next
    case (NoTools d ev2 s4 ev3 s5)
    then show ?thesis
      using reasoningStep_plain[OF NoTools(3)] textStep_plain[OF NoTools(4)]
      by (simp add: untagged_endBeforeCall firstChunk_plain)
  next
    case (Threw d ev2 s4 ev3 s5 tds ev4 e)
    have "endBeforeCall (untagged (firstChunkEvents E s v @ ev2 @ ev3))"
      using reasoningStep_plain[OF Threw(3)] textStep_plain[OF Threw(4)]
      by (simp add: untagged_endBeforeCall firstChunk_plain)
    from endBeforeCall_append[OF this toolCallsLoop_endBeforeCall[OF Threw(5)]] Threw(6)
    show ?thesis by simp
  next
    case (Tools d ev2 s4 ev3 s5 tds ev4 tcs)
    have "endBeforeCall (untagged (firstChunkEvents E s v @ ev2 @ ev3))"
      using reasoningStep_plain[OF Tools(3)] textStep_plain[OF Tools(4)]
      by (simp add: untagged_endBeforeCall firstChunk_plain)
    from endBeforeCall_append[OF this toolCallsLoop_endBeforeCall[OF Tools(5)]] Tools(6)
    show ?thesis by simp
  qed
qed

lemma transformAll_endBeforeCall:
  "transformAll E s cs = (tr, r) \<Longrightarrow> endBeforeCall tr"
proof (induction cs arbitrary: s tr r)
  case Nil
  then show ?case by (simp add: endBeforeCall_noCall)
next
  case (Cons c cs)
  obtain ev1 r1 where step: "transform E s c = (ev1, r1)" by (cases "transform E s c")
  note e1 = transform_endBeforeCall[OF step]
  show ?case
  proof (cases r1)
    case (Inl e)
    with step Cons.prems e1 show ?thesis by simp
  next
    case (Inr s1)
    obtain ev2 r2 where rest: "transformAll E s1 cs = (ev2, r2)" by (cases "transformAll E s1 cs")
    from step Inr rest Cons.prems have "tr = ev1 @ ev2" by simp
    with endBeforeCall_append[OF e1 Cons.IH[OF rest]] show ?thesis by simp
  qed
qed

lemma pipeThrough_endBeforeCall:
  assumes "pipeThrough E cs = (tr, r)"
  shows "endBeforeCall tr"
proof -
  obtain body r0 where b: "transformAll E initial cs = (body, r0)" by (cases "transformAll E initial cs")
  note e = transformAll_endBeforeCall[OF b]
  show ?thesis
  proof (cases r0)
    case (Inl err)
    with b assms e show ?thesis by (simp add: pipeThrough_def)
  next
    case (Inr s')
    have "endBeforeCall (flush E s')"
      by (rule endBeforeCall_noCall) (auto simp: flush_def untagged_def)
    from endBeforeCall_append[OF e this] b Inr assms show ?thesis by (simp add: pipeThrough_def)
  qed
qed

lemma toolDeltas_shape:
  "concat (map toolDeltaOf (ToolInputStart c n # map (ToolInputDelta c) ds @ [ToolInputEnd c])) = ds"
  by (induction ds) simp_all

text \<open>
  C1. A tool-call event is enqueued for a tool-call index only; its input is parsable JSON
  and is the concatenation of the tool-input deltas enqueued for that index before it; the
  event right before it is the tool-input-end of that index; and nothing is enqueued for
  that index after it, whatever fragments follow, a trailing fragment with empty arguments
  included.
\<close>

theorem tool_call_final:
  assumes run: "pipeThrough E cs = (tr, r)" and tr: "tr = pre @ (t, ToolCall c n inp) # post"
  shows "\<exists>i. t = Some i
             \<and> isParsableJson E inp
             \<and> inp = concat (toolDeltas i pre)
             \<and> (\<exists>pre'. pre = pre' @ [(Some i, ToolInputEnd c)])
             \<and> toolEvents i post = []"
proof -
  have "(t, ToolCall c n inp) \<in> set tr" unfolding tr by simp
  from pipeThrough_tags[OF run this] obtain i where t: "t = Some i" by (cases t) auto
  from pipeThrough_endBeforeCall[OF run] tr t
  have adj: "\<exists>pre'. pre = pre' @ [(Some i, ToolInputEnd c)]"
    unfolding endBeforeCall_def by blast
  have split: "toolEvents i tr = toolEvents i pre @ ToolCall c n inp # toolEvents i post"
    unfolding tr t by simp
  then have ne: "toolEvents i tr \<noteq> []" by simp
  from pipeThrough_shape[OF run, of i] obtain st where "toolShape E st (toolEvents i tr)" by blast
  from toolShape_Some[OF this ne] obtain tc :: tool_call_state and ds where
    es: "toolEvents i tr = ToolInputStart (tc_id tc) (tc_name tc) # map (ToolInputDelta (tc_id tc)) ds
          @ (if hasFinished tc
             then [ToolInputEnd (tc_id tc), ToolCall (tc_id tc) (tc_name tc) (tc_arguments tc)]
             else [])"
    and ds: "concat ds = tc_arguments tc"
    and p: "hasFinished tc \<longrightarrow> isParsableJson E (tc_arguments tc)"
    by blast
  have mem: "ToolCall c n inp \<in> set (toolEvents i tr)" unfolding split by simp
  have fin: "hasFinished tc"
  proof (rule ccontr)
    assume "\<not> hasFinished tc"
    with es mem show False by auto
  qed
  let ?ws = "ToolInputStart (tc_id tc) (tc_name tc) # map (ToolInputDelta (tc_id tc)) ds @ [ToolInputEnd (tc_id tc)]"
  from es fin split have eq: "toolEvents i pre @ ToolCall c n inp # toolEvents i post
      = ?ws @ [ToolCall (tc_id tc) (tc_name tc) (tc_arguments tc)]" by simp
  have "ToolCall c n inp \<notin> set ?ws" by auto
  from last_unique[OF eq this]
  have z: "toolEvents i post = []" and x: "toolEvents i pre = ?ws"
    and y: "ToolCall c n inp = ToolCall (tc_id tc) (tc_name tc) (tc_arguments tc)" by simp_all
  from y have inp: "inp = tc_arguments tc" by simp
  have "toolDeltas i pre = ds" unfolding toolDeltas_def x by (rule toolDeltas_shape)
  with ds inp have acc: "inp = concat (toolDeltas i pre)" by simp
  from p fin inp have "isParsableJson E inp" by simp
  with t acc adj z show ?thesis by blast
qed

theorem tool_call_final_witness:
  \<open>pipeThrough sampleEnv
     [sampleChunk (Some (noDelta\<lparr>tool_calls := Some [toolDelta 0 (Some ''call_1'') (Some ''f'') (Some ''{'')]\<rparr>))
        Null None,
      sampleChunk (Some (noDelta\<lparr>tool_calls := Some [toolDelta 0 None None (Some ''}'')]\<rparr>))
        Null None,
      sampleChunk (Some (noDelta\<lparr>tool_calls := Some [toolDelta 0 None None (Some '''')]\<rparr>))
        (Val ''tool_calls'') None]
   = ([(None, StreamStart [WarnOther ''Streaming is still experimental for Sarvam'']),
       (None, ResponseMetadata \<lparr>md_id = Some ''chatcmpl-1'', md_modelId = Some ''sarvam-m'',
                                md_timestamp = Some 1702657020000\<rparr>),
       (Some 0, ToolInputStart ''call_1'' ''f''),
       (Some 0, ToolInputDelta ''call_1'' ''{''),
       (Some 0, ToolInputDelta ''call_1'' ''}''),
       (Some 0, ToolInputEnd ''call_1''),
       (Some 0, ToolCall ''call_1'' ''f'' ''{}''),
       (None, Finish \<lparr>unified = ToolCalls, raw = Some ''tool_calls''\<rparr> (usageTotals initial))], None)
   \<and> isParsableJson sampleEnv ''{}''
   \<and> toolEvents 0 (drop 7 (fst (pipeThrough sampleEnv
     [sampleChunk (Some (noDelta\<lparr>tool_calls := Some [toolDelta 0 (Some ''call_1'') (Some ''f'') (Some ''{'')]\<rparr>))
        Null None,
      sampleChunk (Some (noDelta\<lparr>tool_calls := Some [toolDelta 0 None None (Some ''}'')]\<rparr>))
        Null None,
      sampleChunk (Some (noDelta\<lparr>tool_calls := Some [toolDelta 0 None None (Some '''')]\<rparr>))
        (Val ''tool_calls'') None]))) = []\<close>
  (is "?run \<and> ?json \<and> ?after")
proof -
  let ?cs = "[sampleChunk (Some (noDelta\<lparr>tool_calls := Some [toolDelta 0 (Some ''call_1'') (Some ''f'') (Some ''{'')]\<rparr>))
        Null None,
      sampleChunk (Some (noDelta\<lparr>tool_calls := Some [toolDelta 0 None None (Some ''}'')]\<rparr>))
        Null None,
      sampleChunk (Some (noDelta\<lparr>tool_calls := Some [toolDelta 0 None None (Some '''')]\<rparr>))
        (Val ''tool_calls'') None]"
  let ?tr = "fst (pipeThrough sampleEnv ?cs)"
  have run: ?run by (simp add: run_defs jsonText_open jsonText_braces)
  have run': "pipeThrough sampleEnv ?cs = (?tr, None)" by (simp add: run)
  have split: "?tr = take 6 ?tr @ (Some 0, ToolCall ''call_1'' ''f'' ''{}'') # drop 7 ?tr"
    by (simp add: run)
  from tool_call_final [OF run' split]
  have "isParsableJson sampleEnv ''{}'' \<and> toolEvents 0 (drop 7 ?tr) = []" by blast
  then have json: ?json and after: ?after by simp_all
  show ?thesis using run json after by (intro conjI) assumption+
qed

end
